theory Spec2Isabelle
  imports Main "HOL-Library.Word"
begin

unbundle bit_operations_syntax

section \<open>Bytes, words and read buffers\<close>

text \<open>
  A \<^verbatim>\<open>char\<close> of the C program is a byte.  The type \<^verbatim>\<open>word\<close> that cmp.c uses for
  fast comparison is declared in a header that is not part of the sources at hand, so its
  size \<open>W = sizeof (word)\<close> and the byte order of the machine are parameters of the model.
  A word is the number that its \<open>W\<close> bytes denote; \<open>l ^ nnnn\<close>, \<open>l >> CHAR_BIT\<close> and
  \<open>(unsigned char) l\<close> are the bit operations on that number.
\<close>

type_synonym byte = "8 word"

datatype endian = Little_endian | Big_endian

fun le_value :: "byte list \<Rightarrow> nat" where
  "le_value [] = 0"
| "le_value (b # bs) = unat b + 256 * le_value bs"

definition word_value :: "endian \<Rightarrow> byte list \<Rightarrow> nat" where
  "word_value e bs =
     (case e of Little_endian \<Rightarrow> le_value bs | Big_endian \<Rightarrow> le_value (rev bs))"

text \<open>
  A buffer is the list of the bytes allocated for it.  \<open>load_word W e p i\<close> is the read
  \<^verbatim>\<open>p[i]\<close> through a \<^verbatim>\<open>word const *\<close>, \<open>load_byte p j\<close> the read \<^verbatim>\<open>p[j]\<close> through a
  \<^verbatim>\<open>char const *\<close>.  A read that is not inside the allocated bytes has no defined result in C;
  here it yields \<open>None\<close>.
\<close>

definition load_word :: "nat \<Rightarrow> endian \<Rightarrow> byte list \<Rightarrow> nat \<Rightarrow> nat option" where
  "load_word W e p i =
     (if 0 < W \<and> W * i + W \<le> length p
      then Some (word_value e (take W (drop (W * i) p))) else None)"

definition load_byte :: "byte list \<Rightarrow> nat \<Rightarrow> byte option" where
  "load_byte p j = (if j < length p then Some (p ! j) else None)"

text \<open>
  \<^verbatim>\<open>off_t\<close> is a signed integer type whose width is fixed by a system header that is not
  part of the sources at hand; the number \<open>N\<close> of its bits is a parameter of the model.
  \<open>off_t N x\<close> is the value with which the integer \<open>x\<close> is stored in an \<^verbatim>\<open>off_t\<close>: the
  result of an addition is cut to \<open>N\<close> bits in two's complement, so that it wraps around
  past the largest value \<open>2 ^ (N - 1) - 1\<close>.
\<close>

definition off_t :: "nat \<Rightarrow> int \<Rightarrow> int" where
  "off_t N x = signed_take_bit (N - 1) x"

section \<open>The block comparator\<close>

text \<open>
  \<^verbatim>\<open>nnnn = 0; for (i = 0; i < sizeof nnnn; i++) nnnn = (nnnn << CHAR_BIT) | '\n';\<close>
  The second argument counts the iterations done; the shift drops the bits that leave the
  \<open>8 * W\<close> bits of a word.
\<close>

fun nnnn_loop :: "nat \<Rightarrow> nat \<Rightarrow> nat" where
  "nnnn_loop W 0 = 0"
| "nnnn_loop W (Suc i) = take_bit (8 * W) (push_bit 8 (nnnn_loop W i)) OR 10"

text \<open>
  \<^verbatim>\<open>for (i = 0; i < sizeof l; i++) { cnt += ! (unsigned char) l; l >>= CHAR_BIT; }\<close>
  The first argument is the number of iterations left.
\<close>

fun count_zero_bytes :: "nat \<Rightarrow> nat \<Rightarrow> nat \<Rightarrow> nat" where
  "count_zero_bytes 0 l cnt = cnt"
| "count_zero_bytes (Suc i) l cnt =
     count_zero_bytes i (drop_bit 8 l) (cnt + (if take_bit 8 l = 0 then 1 else 0))"

text \<open>\<^verbatim>\<open>for (l0 = p0, l1 = p1;  *l0 == *l1;  l0++, l1++) continue;\<close> with \<open>i = l0 - p0\<close>.\<close>

function words_loop :: "nat \<Rightarrow> endian \<Rightarrow> byte list \<Rightarrow> byte list \<Rightarrow> nat \<Rightarrow> nat option" where
  "words_loop W e p0 p1 i =
     (case load_word W e p0 i of None \<Rightarrow> None
      | Some l \<Rightarrow>
     (case load_word W e p1 i of None \<Rightarrow> None
      | Some l' \<Rightarrow> if l = l' then words_loop W e p0 p1 (i + 1) else Some i))"
  by pat_completeness auto
termination
  by (relation "measure (\<lambda>(W, e, p0, p1, i). length p0 - W * i)")
     (auto simp: load_word_def split: if_splits)

text \<open>\<^verbatim>\<open>for (c0 = ..., c1 = ...; *c0 == *c1; c0++, c1++) continue;\<close> with \<open>j = c0 - p0\<close>.\<close>

function bytes_loop :: "byte list \<Rightarrow> byte list \<Rightarrow> nat \<Rightarrow> nat option" where
  "bytes_loop p0 p1 j =
     (case load_byte p0 j of None \<Rightarrow> None
      | Some c0 \<Rightarrow>
     (case load_byte p1 j of None \<Rightarrow> None
      | Some c1 \<Rightarrow> if c0 = c1 then bytes_loop p0 p1 (j + 1) else Some j))"
  by pat_completeness auto
termination
  by (relation "measure (\<lambda>(p0, p1, j). length p0 - j)")
     (auto simp: load_byte_def split: if_splits)

text \<open>
  \<open>block_compare\<close>: the word loop, then the byte loop from the first byte of the word at
  which the word loop stopped; the result is \<^verbatim>\<open>c0 - (char const *) p0\<close>.
\<close>

definition block_compare :: "nat \<Rightarrow> endian \<Rightarrow> byte list \<Rightarrow> byte list \<Rightarrow> nat option" where
  "block_compare W e p0 p1 =
     (case words_loop W e p0 p1 0 of None \<Rightarrow> None
      | Some i \<Rightarrow> bytes_loop p0 p1 (W * i))"

text \<open>
  The loops of \<open>block_compare_and_count\<close>.  For every pair of equal words:
  \<^verbatim>\<open>l ^= nnnn;\<close> and the count of the zero bytes of \<open>l\<close>; for every pair of equal bytes:
  \<^verbatim>\<open>cnt += *c0 == '\n';\<close>
\<close>

function words_loop_count ::
  "nat \<Rightarrow> endian \<Rightarrow> byte list \<Rightarrow> byte list \<Rightarrow> nat \<Rightarrow> nat \<Rightarrow> (nat \<times> nat) option" where
  "words_loop_count W e p0 p1 i cnt =
     (case load_word W e p0 i of None \<Rightarrow> None
      | Some l \<Rightarrow>
     (case load_word W e p1 i of None \<Rightarrow> None
      | Some l' \<Rightarrow>
          if l = l'
          then words_loop_count W e p0 p1 (i + 1)
                 (count_zero_bytes W (l XOR nnnn_loop W W) cnt)
          else Some (i, cnt)))"
  by pat_completeness auto
termination
  by (relation "measure (\<lambda>(W, e, p0, p1, i, cnt). length p0 - W * i)")
     (auto simp: load_word_def split: if_splits)

function bytes_loop_count ::
  "byte list \<Rightarrow> byte list \<Rightarrow> nat \<Rightarrow> nat \<Rightarrow> (nat \<times> nat) option" where
  "bytes_loop_count p0 p1 j cnt =
     (case load_byte p0 j of None \<Rightarrow> None
      | Some c0 \<Rightarrow>
     (case load_byte p1 j of None \<Rightarrow> None
      | Some c1 \<Rightarrow>
          if c0 = c1
          then bytes_loop_count p0 p1 (j + 1) (cnt + (if c0 = 10 then 1 else 0))
          else Some (j, cnt)))"
  by pat_completeness auto
termination
  by (relation "measure (\<lambda>(p0, p1, j, cnt). length p0 - j)")
     (auto simp: load_byte_def split: if_splits)

text \<open>
  \<open>block_compare_and_count p0 p1 &count\<close> yields the offset and the new value of
  \<^verbatim>\<open>*count\<close>.  The count \<open>cnt\<close> of the newlines of one block is a \<^verbatim>\<open>size_t\<close>, which
  cannot overflow: a block has at least as many bytes as newlines.  \<^verbatim>\<open>*count\<close> is an
  \<^verbatim>\<open>off_t\<close> of \<open>N\<close> bits, and \<^verbatim>\<open>*count += cnt\<close> wraps around.
\<close>

definition block_compare_and_count ::
  "nat \<Rightarrow> nat \<Rightarrow> endian \<Rightarrow> byte list \<Rightarrow> byte list \<Rightarrow> int \<Rightarrow> (nat \<times> int) option" where
  "block_compare_and_count N W e p0 p1 count =
     (case words_loop_count W e p0 p1 0 0 of None \<Rightarrow> None
      | Some (i, cnt) \<Rightarrow>
     (case bytes_loop_count p0 p1 (W * i) cnt of None \<Rightarrow> None
      | Some (j, cnt') \<Rightarrow> Some (j, off_t N (count + int cnt'))))"

text \<open>
  The sentinels of \<open>cmp\<close>:
  \<^verbatim>\<open>buf0[read0] = ~buf1[read0]; buf1[read1] = ~buf0[read1];\<close>
  The second assignment reads the buffer that the first one has written.  An index outside
  a buffer gives \<open>None\<close>.
\<close>

definition insert_sentinels ::
  "byte list \<Rightarrow> byte list \<Rightarrow> nat \<Rightarrow> nat \<Rightarrow> (byte list \<times> byte list) option" where
  "insert_sentinels buf0 buf1 read0 read1 =
     (if read0 < length buf0 \<and> read0 < length buf1 \<and> read1 < length buf0 \<and> read1 < length buf1
      then (let buf0' = buf0[read0 := NOT (buf1 ! read0)];
                buf1' = buf1[read1 := NOT (buf0' ! read1)]
            in Some (buf0', buf1'))
      else None)"

text \<open>
  \<open>main\<close> allocates \<open>words_per_buffer\<close> words for each buffer:
  \<^verbatim>\<open>words_per_buffer = (buf_size + 2 * sizeof (word) - 1) / sizeof (word);\<close>
\<close>

definition words_per_buffer :: "nat \<Rightarrow> nat \<Rightarrow> nat" where
  "words_per_buffer W buf_size = (buf_size + 2 * W - 1) div W"

section \<open>Quoting a byte\<close>

text \<open>
  \<open>ISPRINT\<close> is a macro of a header that is not part of the sources at hand; it depends on
  the locale, and is a parameter of \<open>sprintc\<close>.  \<open>ISPRINT_C\<close> is its value in the C locale,
  where the printing characters are the bytes 32 to 126.
\<close>

definition ISPRINT_C :: "byte \<Rightarrow> bool" where
  "ISPRINT_C c = (32 \<le> c \<and> c < 127)"

text \<open>\<^verbatim>\<open>while (--width > 0) *buf++ = ' ';\<close>\<close>

function pad :: "int \<Rightarrow> byte list \<Rightarrow> byte list" where
  "pad width buf = (if 0 < width - 1 then pad (width - 1) (buf @ [of_char CHR '' '']) else buf)"
  by pat_completeness auto
termination
  by (relation "measure (\<lambda>(width, buf). nat width)") auto

text \<open>
  \<open>sprintc buf width c\<close>: the result is the string that the call leaves in \<^verbatim>\<open>buf\<close>,
  without the terminating zero byte.
\<close>

definition sprintc :: "(byte \<Rightarrow> bool) \<Rightarrow> int \<Rightarrow> byte \<Rightarrow> byte list" where
  "sprintc ISPRINT width c =
     (let (buf, c, width) =
        (if \<not> ISPRINT c
         then (let (buf, c, width) =
                 (if c \<ge> 128
                  then ([of_char CHR ''M'', of_char CHR ''-''], c - 128, width - 2)
                  else ([], c, width))
               in if c < 32 then (buf @ [of_char CHR ''^''], c + 64, width - 1)
                  else if c = 127 then (buf @ [of_char CHR ''^''], of_char CHR ''?'', width - 1)
                  else (buf, c, width))
         else ([], c, width))
      in pad width (buf @ [c]))"


section \<open>Open files\<close>

text \<open>
  What \<open>cmp\<close> can observe of an open file description: the bytes of the file (for a pipe,
  the bytes that will ever arrive), the current offset, and whether \<^verbatim>\<open>lseek\<close> works on it.
  When \<open>read_error\<close> holds, a read that finds no more data fails instead of reporting end of
  file.  \<open>reads\<close> counts the read requests made so far.
\<close>

record stream =
  data :: "byte list"
  pos :: nat
  seekable :: bool
  read_error :: bool
  reads :: nat

definition rest :: "stream \<Rightarrow> byte list" where
  "rest f = drop (pos f) (data f)"

text \<open>
  \<^verbatim>\<open>lseek (fd, n, SEEK_CUR)\<close>: the new offset, or \<open>-1\<close>.  The offset may pass the end
  of the file; the call fails when the new offset is not a value of an \<^verbatim>\<open>off_t\<close> of \<open>N\<close>
  bits.
\<close>

definition lseek_cur :: "nat \<Rightarrow> stream \<Rightarrow> nat \<Rightarrow> stream \<times> int" where
  "lseek_cur N f n =
     (if seekable f \<and> int (pos f + n) < 2 ^ (N - 1)
      then (f\<lparr>pos := pos f + n\<rparr>, int (pos f + n)) else (f, - 1))"

text \<open>
  \<^verbatim>\<open>read (fd, buf, n)\<close>: the bytes delivered, or \<open>None\<close> for the result \<open>-1\<close>.  The
  call is taken to deliver \<open>n\<close> bytes when that many are left.
\<close>

definition read_fd :: "stream \<Rightarrow> nat \<Rightarrow> byte list option \<times> stream" where
  "read_fd f n =
     (let f' = f\<lparr>reads := reads f + 1\<rparr>
      in if rest f = [] \<and> 0 < n \<and> read_error f then (None, f')
         else (Some (take n (rest f)), f'\<lparr>pos := pos f + length (take n (rest f))\<rparr>))"

text \<open>
  Modelled from the spec: \<open>block_read\<close> is defined in cmpbuf.c, which is not part of the
  sources at hand.  The spec: \<open>read_block(handle, capacity) -> bytes_read | Fails(IOError)\<close>;
  a \<open>bytes_read\<close> of 0 signals EOF, a value less than the capacity a short read, which ends
  the read loop after this block; the call advances the file position.  The block read
  delivers \<open>n\<close> bytes unless the input ends before; \<open>None\<close> stands for the failure, which
  the C function reports as \<^verbatim>\<open>(size_t) -1\<close>.
\<close>

definition block_read :: "stream \<Rightarrow> nat \<Rightarrow> byte list option \<times> stream" where
  "block_read f n =
     (let f' = f\<lparr>reads := reads f + 1\<rparr>
      in if length (rest f) < n \<and> read_error f then (None, f')
         else (Some (take n (rest f)), f'\<lparr>pos := pos f + length (take n (rest f))\<rparr>))"

text \<open>
  A read stores the bytes it delivers at the start of the buffer; \<open>None\<close> when they do not
  fit into the buffer.
\<close>

definition store :: "byte list \<Rightarrow> byte list \<Rightarrow> byte list option" where
  "store buf bytes =
     (if length bytes \<le> length buf then Some (bytes @ drop (length bytes) buf) else None)"

section \<open>The variables of cmp.c\<close>

datatype comparison_type = type_first_diff | type_all_diffs | type_status

text \<open>
  What the program writes, one event for each call that prints, with the arguments of the
  call:
  \<^item> \<open>Differ\<close>: \<^verbatim>\<open>printf ("%s %s differ: char %s, line %s\n", file[0], file[1], char_num, line_num)\<close>;
  \<^item> \<open>Differ_bytes\<close>: \<^verbatim>\<open>printf ("%s %s differ: byte %s, line %s is %3o %s %3o %s\n", ...)\<close>
    with \<open>c0\<close>, \<open>s0\<close>, \<open>c1\<close>, \<open>s1\<close>;
  \<^item> \<open>Diff_line\<close>: \<^verbatim>\<open>printf ("%6s %3o %3o\n", char_num, c0, c1)\<close>;
  \<^item> \<open>Diff_line_bytes\<close>: \<^verbatim>\<open>printf ("%6s %3o %s %3o %s\n", char_num, c0, s0, c1, s1)\<close>;
  \<^item> \<open>EOF_on\<close>: \<^verbatim>\<open>fprintf (stderr, "cmp: EOF on %s\n", ...)\<close>;
  \<^item> \<open>Error_msg\<close>: the message of \<^verbatim>\<open>error (2, errno, "%s", ...)\<close> on the error stream;
  \<^item> \<open>Try_help\<close>: the messages of \<open>try_help\<close> on the error stream, with the reason and
    the operand when there is a reason;
  \<^item> \<open>Memory_exhausted\<close>: the message of \<open>xmalloc\<close> on the error stream;
  \<^item> \<open>Version_info\<close> and \<open>Usage_info\<close>: what is written for \<^verbatim>\<open>-v\<close> and for \<^verbatim>\<open>--help\<close>;
  \<^item> \<open>Stdout_error\<close>: the message of \<open>check_stdout\<close> on the error stream.
\<close>

datatype reason = Invalid_ignore_initial | Missing_operand | Extra_operand

datatype event =
    Differ string string int int
  | Differ_bytes string string int int byte "byte list" byte "byte list"
  | Diff_line int byte byte
  | Diff_line_bytes int byte "byte list" byte "byte list"
  | EOF_on string
  | Error_msg string
  | Try_help "(reason \<times> string) option"
  | Memory_exhausted
  | Version_info
  | Usage_info
  | Stdout_error

text \<open>
  How a function ends: it returns a value, or the process exits with a status (\<^verbatim>\<open>exit\<close>,
  or \<^verbatim>\<open>error\<close> with a nonzero status), or it accesses memory outside a buffer.
\<close>

datatype 'a outcome = Fault | Exit nat | Return 'a

text \<open>
  The file-scope variables that \<open>main\<close> sets before it calls \<open>cmp\<close>; \<open>file_name\<close>
  is the array \<^verbatim>\<open>file\<close> of the names of the compared files.  \<open>ignore_initial\<close> is an
  \<^verbatim>\<open>off_t\<close> that \<open>main\<close> accepts only when it is not negative.
\<close>

record globals =
  file_name :: "nat \<Rightarrow> string"
  buf_size :: nat
  ignore_initial :: nat
  comparison_type :: comparison_type
  opt_print_bytes :: bool

text \<open>
  What the headers and the machine fix: \<open>sizeof (word)\<close>, the byte order, the macro
  \<^verbatim>\<open>ISPRINT\<close> (the field \<open>printable\<close>), and the numbers of bits of an \<^verbatim>\<open>off_t\<close> and of a
  \<^verbatim>\<open>size_t\<close>.
\<close>

record platform =
  sizeof_word :: nat
  byte_order :: endian
  printable :: "byte \<Rightarrow> bool"
  off_t_bits :: nat
  size_t_bits :: nat

text \<open>
  The state that changes: the two open files \<open>file_desc[f]\<close>, the two buffers, the static
  variables of \<open>file_position\<close>, and what has been written so far.
\<close>

record state =
  file_desc :: "nat \<Rightarrow> stream"
  buffer :: "nat \<Rightarrow> byte list"
  positioned :: "nat \<Rightarrow> bool"
  position :: "nat \<Rightarrow> int"
  printed :: "event list"

section \<open>The comparison\<close>

definition file_position :: "platform \<Rightarrow> globals \<Rightarrow> nat \<Rightarrow> state \<Rightarrow> int \<times> state" where
  "file_position p g f s =
     (if \<not> positioned s f
      then (let (fl, q) = lseek_cur (off_t_bits p) (file_desc s f) (ignore_initial g)
            in (q, s\<lparr>positioned := (positioned s)(f := True),
                      position := (position s)(f := q),
                      file_desc := (file_desc s)(f := fl)\<rparr>))
      else (position s f, s))"

text \<open>
  The loop of \<open>cmp\<close> that reads and discards the ignored initial prefix of file \<open>f\<close>:
  \<^verbatim>\<open>do { r = read (file_desc[f], buf0, MIN (ig, buf_size)); if (!r) break;\<close>
  \<^verbatim>\<open>     if (r < 0) error (2, errno, "%s", file[f]); ig -= r; } while (ig);\<close>
\<close>

function discard :: "globals \<Rightarrow> nat \<Rightarrow> nat \<Rightarrow> state \<Rightarrow> unit outcome \<times> state" where
  "discard g f ig s =
     (case read_fd (file_desc s f) (min ig (buf_size g)) of
        (None, fl) \<Rightarrow>
          (Exit 2, s\<lparr>file_desc := (file_desc s)(f := fl),
                       printed := printed s @ [Error_msg (file_name g f)]\<rparr>)
      | (Some bytes, fl) \<Rightarrow>
          (case store (buffer s 0) bytes of
             None \<Rightarrow> (Fault, s)
           | Some buf0 \<Rightarrow>
               if bytes = []
               then (Return (), s\<lparr>file_desc := (file_desc s)(f := fl),
                                   buffer := (buffer s)(0 := buf0)\<rparr>)
               else if ig - length bytes \<noteq> 0
               then discard g f (ig - length bytes)
                      (s\<lparr>file_desc := (file_desc s)(f := fl),
                         buffer := (buffer s)(0 := buf0)\<rparr>)
               else (Return (), s\<lparr>file_desc := (file_desc s)(f := fl),
                                   buffer := (buffer s)(0 := buf0)\<rparr>)))"
  by pat_completeness auto
termination
  by (relation "measure (\<lambda>(g, f, ig, s). ig)") auto

text \<open>\<^verbatim>\<open>if (file_position (f) == -1) { ... }\<close> for one file.\<close>

definition skip_file :: "platform \<Rightarrow> globals \<Rightarrow> nat \<Rightarrow> state \<Rightarrow> unit outcome \<times> state" where
  "skip_file p g f s =
     (case file_position p g f s of
        (q, s') \<Rightarrow> if q = - 1 then discard g f (ignore_initial g) s' else (Return (), s'))"

text \<open>\<^verbatim>\<open>if (ignore_initial) for (f = 0; f < 2; f++) ...\<close>\<close>

definition skip_initial :: "platform \<Rightarrow> globals \<Rightarrow> state \<Rightarrow> unit outcome \<times> state" where
  "skip_initial p g s =
     (if ignore_initial g \<noteq> 0
      then (case skip_file p g 0 s of
              (Return u, s') \<Rightarrow> skip_file p g 1 s'
            | (Exit n, s') \<Rightarrow> (Exit n, s')
            | (Fault, s') \<Rightarrow> (Fault, s'))
      else (Return (), s))"

text \<open>
  The two block reads of one iteration and the sentinels.  The result is the pair
  \<open>(read0, read1)\<close>.
\<close>

definition read_blocks :: "globals \<Rightarrow> state \<Rightarrow> (nat \<times> nat) outcome \<times> state" where
  "read_blocks g s =
     (case block_read (file_desc s 0) (buf_size g) of
        (None, f0) \<Rightarrow>
          (Exit 2, s\<lparr>file_desc := (file_desc s)(0 := f0),
                       printed := printed s @ [Error_msg (file_name g 0)]\<rparr>)
      | (Some blk0, f0) \<Rightarrow>
     (case store (buffer s 0) blk0 of
        None \<Rightarrow> (Fault, s)
      | Some buf0 \<Rightarrow>
     (case block_read (file_desc s 1) (buf_size g) of
        (None, f1) \<Rightarrow>
          (Exit 2, s\<lparr>file_desc := (file_desc s)(0 := f0, 1 := f1),
                       buffer := (buffer s)(0 := buf0),
                       printed := printed s @ [Error_msg (file_name g 1)]\<rparr>)
      | (Some blk1, f1) \<Rightarrow>
     (case store (buffer s 1) blk1 of
        None \<Rightarrow> (Fault, s)
      | Some buf1 \<Rightarrow>
     (case insert_sentinels buf0 buf1 (length blk0) (length blk1) of
        None \<Rightarrow> (Fault, s)
      | Some (buf0', buf1') \<Rightarrow>
          (Return (length blk0, length blk1),
           s\<lparr>file_desc := (file_desc s)(0 := f0, 1 := f1),
              buffer := (buffer s)(0 := buf0', 1 := buf1')\<rparr>))))))"

text \<open>
  \<^verbatim>\<open>first_diff = (comparison_type == type_first_diff\<close>
  \<^verbatim>\<open>              ? block_compare_and_count (buffer0, buffer1, &line_number)\<close>
  \<^verbatim>\<open>              : block_compare (buffer0, buffer1));\<close>
  The result is \<open>first_diff\<close> and the line number after the call.
\<close>

definition compare_blocks :: "platform \<Rightarrow> globals \<Rightarrow> state \<Rightarrow> int \<Rightarrow> (nat \<times> int) option" where
  "compare_blocks p g s line_number =
     (if comparison_type g = type_first_diff
      then block_compare_and_count (off_t_bits p) (sizeof_word p) (byte_order p)
             (buffer s 0) (buffer s 1) line_number
      else map_option (\<lambda>first_diff. (first_diff, line_number))
             (block_compare (sizeof_word p) (byte_order p) (buffer s 0) (buffer s 1)))"

text \<open>The report of the first difference; the bytes are read only to print them.\<close>

definition differ_report ::
  "platform \<Rightarrow> globals \<Rightarrow> state \<Rightarrow> nat \<Rightarrow> int \<Rightarrow> int \<Rightarrow> event option" where
  "differ_report p g s first_diff char_number line_number =
     (if \<not> opt_print_bytes g
      then Some (Differ (file_name g 0) (file_name g 1) char_number line_number)
      else (case load_byte (buffer s 0) first_diff of None \<Rightarrow> None
            | Some c0 \<Rightarrow>
           (case load_byte (buffer s 1) first_diff of None \<Rightarrow> None
            | Some c1 \<Rightarrow>
                Some (Differ_bytes (file_name g 0) (file_name g 1) char_number line_number
                        c0 (sprintc (printable p) 0 c0) c1 (sprintc (printable p) 0 c1)))))"

text \<open>The line that the mode \<open>type_all_diffs\<close> prints for one differing byte.\<close>

definition diff_line :: "platform \<Rightarrow> globals \<Rightarrow> int \<Rightarrow> byte \<Rightarrow> byte \<Rightarrow> event" where
  "diff_line p g char_number c0 c1 =
     (if \<not> opt_print_bytes g then Diff_line char_number c0 c1
      else Diff_line_bytes char_number c0 (sprintc (printable p) 4 c0) c1 (sprintc (printable p) 0 c1))"

text \<open>
  The inner loop of the mode \<open>type_all_diffs\<close>:
  \<^verbatim>\<open>do { c0 = buf0[first_diff]; c1 = buf1[first_diff]; if (c0 != c1) printf (...);\<close>
  \<^verbatim>\<open>     char_number++; first_diff++; } while (first_diff < smaller);\<close>
  The result is the character number after the loop and the events written.
  \<open>char_number\<close> is an \<^verbatim>\<open>off_t\<close>.
\<close>

function all_diffs_loop ::
  "platform \<Rightarrow> globals \<Rightarrow> byte list \<Rightarrow> byte list \<Rightarrow> nat \<Rightarrow> nat \<Rightarrow> int \<Rightarrow> event list
     \<Rightarrow> (int \<times> event list) option" where
  "all_diffs_loop p g buf0 buf1 smaller first_diff char_number out =
     (case load_byte buf0 first_diff of None \<Rightarrow> None
      | Some c0 \<Rightarrow>
     (case load_byte buf1 first_diff of None \<Rightarrow> None
      | Some c1 \<Rightarrow>
          let out' = (if c0 \<noteq> c1 then out @ [diff_line p g char_number c0 c1] else out)
          in if first_diff + 1 < smaller
             then all_diffs_loop p g buf0 buf1 smaller (first_diff + 1)
                    (off_t (off_t_bits p) (char_number + 1)) out'
             else Some (off_t (off_t_bits p) (char_number + 1), out')))"
  by pat_completeness auto
termination
  by (relation "measure (\<lambda>(p, g, buf0, buf1, smaller, first_diff, char_number, out).
                           smaller - first_diff)") auto

text \<open>
  The \<^verbatim>\<open>switch (comparison_type)\<close> that runs when \<open>first_diff < smaller\<close>: \<open>Inl\<close> when
  \<open>cmp\<close> returns from it, \<open>Inr\<close> with the character number and the value of \<open>ret\<close> when the
  iteration goes on.
\<close>

definition difference_found ::
  "platform \<Rightarrow> globals \<Rightarrow> state \<Rightarrow> nat \<Rightarrow> nat \<Rightarrow> int \<Rightarrow> int
     \<Rightarrow> (int outcome \<times> state) + (int \<times> int \<times> state)" where
  "difference_found p g s first_diff smaller char_number line_number =
     (case comparison_type g of
        type_first_diff \<Rightarrow>
          (case differ_report p g s first_diff char_number line_number of
             None \<Rightarrow> Inl (Fault, s)
           | Some e \<Rightarrow> Inl (Return 1, s\<lparr>printed := printed s @ [e]\<rparr>))
      | type_status \<Rightarrow> Inl (Return 1, s)
      | type_all_diffs \<Rightarrow>
          (case all_diffs_loop p g (buffer s 0) (buffer s 1) smaller first_diff
                  char_number (printed s) of
             None \<Rightarrow> Inl (Fault, s)
           | Some (char_number', out) \<Rightarrow> Inr (char_number', 1, s\<lparr>printed := out\<rparr>)))"

text \<open>
  One iteration of the \<^verbatim>\<open>do ... while (read0 == buf_size)\<close> loop of \<open>cmp\<close>, on the local
  variables \<open>line_number\<close>, \<open>char_number\<close> and \<open>ret\<close> and the state: \<open>Inl\<close> when \<open>cmp\<close> ends
  in the iteration, \<open>Inr\<close> when the loop goes on.
\<close>

definition cmp_block ::
  "platform \<Rightarrow> globals \<Rightarrow> int \<times> int \<times> int \<times> state
     \<Rightarrow> (int outcome \<times> state) + (int \<times> int \<times> int \<times> state)" where
  "cmp_block p g ls =
     (case ls of (line_number, char_number, ret, s) \<Rightarrow>
     (case read_blocks g s of
        (Fault, s1) \<Rightarrow> Inl (Fault, s1)
      | (Exit n, s1) \<Rightarrow> Inl (Exit n, s1)
      | (Return (read0, read1), s1) \<Rightarrow>
     (case compare_blocks p g s1 line_number of
        None \<Rightarrow> Inl (Fault, s1)
      | Some (first_diff, line_number') \<Rightarrow>
          let char_number' = off_t (off_t_bits p) (char_number + int first_diff);
              smaller = min read0 read1
          in (case (if first_diff < smaller
                    then difference_found p g s1 first_diff smaller char_number' line_number'
                    else Inr (char_number', ret, s1)) of
                Inl r \<Rightarrow> Inl r
              | Inr (char_number'', ret', s2) \<Rightarrow>
                  if read0 \<noteq> read1
                  then Inl (Return 1,
                            if comparison_type g \<noteq> type_status
                            then s2\<lparr>printed := printed s2 @
                                     [EOF_on (file_name g (if read1 < read0 then 1 else 0))]\<rparr>
                            else s2)
                  else if read0 = buf_size g
                  then Inr (line_number', char_number'', ret', s2)
                  else Inl (Return ret', s2)))))"

text \<open>The loop; \<open>None\<close> when it does not end.\<close>

partial_function (option) cmp_loop ::
  "platform \<Rightarrow> globals \<Rightarrow> int \<times> int \<times> int \<times> state \<Rightarrow> (int outcome \<times> state) option" where
  "cmp_loop p g ls =
     (case cmp_block p g ls of Inl r \<Rightarrow> Some r | Inr ls' \<Rightarrow> cmp_loop p g ls')"

text \<open>
  \<open>cmp\<close>: \<^verbatim>\<open>line_number = 1\<close>, \<^verbatim>\<open>char_number = ignore_initial + 1\<close>, \<^verbatim>\<open>ret = 0\<close>; the
  result is what \<open>cmp\<close> returns (0 if identical, 1 if different), or the exit of the process.
  Character and line numbers are \<^verbatim>\<open>off_t\<close> values: every addition on them is cut to
  the bits of an \<^verbatim>\<open>off_t\<close>.
\<close>

definition cmp :: "platform \<Rightarrow> globals \<Rightarrow> state \<Rightarrow> (int outcome \<times> state) option" where
  "cmp p g s =
     (case skip_initial p g s of
        (Return u, s') \<Rightarrow>
          cmp_loop p g (1, off_t (off_t_bits p) (int (ignore_initial g) + 1), 0, s')
      | (Exit n, s') \<Rightarrow> Some (Exit n, s')
      | (Fault, s') \<Rightarrow> Some (Fault, s'))"


section \<open>The function \<open>main\<close>\<close>

text \<open>
  One result of \<^verbatim>\<open>getopt_long\<close> in the option loop: an option character with the value of
  \<^verbatim>\<open>optarg\<close>, or the code \<^verbatim>\<open>CHAR_MAX + 1\<close> of \<^verbatim>\<open>--help\<close>.  A long option arrives as the
  character that \<open>long_options\<close> gives it; an option that \<^verbatim>\<open>getopt_long\<close> does not know
  arrives as \<^verbatim>\<open>?\<close>.
\<close>

datatype getopt = Opt char string | Opt_help

text \<open>
  What \<open>main\<close> reads of a \<^verbatim>\<open>struct stat\<close>: the size, whether \<^verbatim>\<open>S_ISREG (st_mode)\<close>
  holds, and the remaining fields, which only the macros of system.h inspect.
\<close>

record stat =
  st_size :: int
  st_isreg :: bool
  st_other :: nat

text \<open>
  The surroundings of a run.  The functions \<^verbatim>\<open>strtoumax\<close>, \<^verbatim>\<open>same_file\<close>,
  \<^verbatim>\<open>same_file_attributes\<close>, \<^verbatim>\<open>STAT_BLOCKSIZE\<close> and \<^verbatim>\<open>buffer_lcm\<close> are library functions
  and macros of system.h and cmpbuf.c; they are parameters here.
  \<^item> \<open>strtoumax\<close>: the value, the text left at \<^verbatim>\<open>numend\<close>, and whether \<^verbatim>\<open>errno\<close> is set;
  \<^item> \<open>open_file\<close>: \<^verbatim>\<open>open (name, O_RDONLY, 0)\<close>, \<open>None\<close> for the result \<open>-1\<close>, and with the
    open file the result of \<^verbatim>\<open>fstat\<close> on it, \<open>None\<close> when \<^verbatim>\<open>fstat\<close> fails;
  \<^item> \<open>stdin\<close>: the file open as \<^verbatim>\<open>STDIN_FILENO\<close> with the result of \<^verbatim>\<open>fstat\<close> on it;
  \<^item> \<open>stdout_stat\<close> and \<open>null_stat\<close>: the results of \<^verbatim>\<open>fstat (STDOUT_FILENO, ...)\<close> and of
    \<^verbatim>\<open>stat (NULL_DEVICE, ...)\<close>;
  \<^item> \<open>heap_limit\<close> and \<open>heap_junk\<close>: the largest block that can be allocated, and the
    bytes found in a new block;
  \<^item> \<open>close_fails f\<close>: \<^verbatim>\<open>close (file_desc[f])\<close> fails; \<open>stdout_fails\<close>: \<open>check_stdout\<close>
    finds an error.

  Two files that \<open>main\<close> opens are taken to be independent of each other: reading one
  does not move the offset of the other.
\<close>

record env =
  strtoumax :: "string \<Rightarrow> nat \<times> string \<times> bool"
  open_file :: "string \<Rightarrow> (stream \<times> stat option) option"
  stdin :: "stream \<times> stat option"
  stdout_stat :: "stat option"
  null_stat :: "stat option"
  same_file :: "stat \<Rightarrow> stat \<Rightarrow> int"
  same_file_attributes :: "stat \<Rightarrow> stat \<Rightarrow> bool"
  STAT_BLOCKSIZE :: "stat \<Rightarrow> nat"
  buffer_lcm :: "nat \<Rightarrow> nat \<Rightarrow> nat"
  heap_limit :: nat
  heap_junk :: "nat \<Rightarrow> byte"
  close_fails :: "nat \<Rightarrow> bool"
  stdout_fails :: bool

text \<open>An unsigned value cut to the \<open>S\<close> bits of a \<^verbatim>\<open>size_t\<close>.\<close>

definition size_t :: "nat \<Rightarrow> nat \<Rightarrow> nat" where
  "size_t S n = n mod 2 ^ S"

text \<open>
  \<^verbatim>\<open>xmalloc\<close> is a library function: it returns a new block of \<open>n\<close> bytes, or it writes a
  message and exits with the status \<^verbatim>\<open>xalloc_exit_failure\<close>, which \<open>main\<close> sets to 2
  (\<open>None\<close> here).
\<close>

definition xmalloc :: "env \<Rightarrow> nat \<Rightarrow> byte list option" where
  "xmalloc e n = (if n \<le> heap_limit e then Some (map (heap_junk e) [0..<n]) else None)"

text \<open>
  Modelled from the spec: \<^verbatim>\<open>file_name_cmp\<close> is a macro of system.h, which is not part of
  the sources at hand.  The spec: ``Both operands name the same path string''.  The result
  is 0 for equal names.
\<close>

definition file_name_cmp :: "string \<Rightarrow> string \<Rightarrow> int" where
  "file_name_cmp a b = (if a = b then 0 else 1)"

text \<open>
  The values of the file-scope variables when \<open>main\<close> starts: static storage is
  initialised with zeros, so that the mode is \<open>type_first_diff\<close>, the first member of the
  enumeration, and both descriptors are 0, the standard input.
\<close>

definition initial_globals :: globals where
  "initial_globals =
     \<lparr>file_name = (\<lambda>f. []), buf_size = 0, ignore_initial = 0,
      comparison_type = type_first_diff, opt_print_bytes = False\<rparr>"

definition initial_state :: "env \<Rightarrow> state" where
  "initial_state e =
     \<lparr>file_desc = (\<lambda>f. fst (stdin e)), buffer = (\<lambda>f. []),
      positioned = (\<lambda>f. False), position = (\<lambda>f. 0), printed = []\<rparr>"

text \<open>
  The option loop of \<open>main\<close>, on the results of \<^verbatim>\<open>getopt_long\<close> in their order: \<open>Inl\<close> with
  the exit status and what has been written when the loop ends the process, \<open>Inr\<close> with the
  variables after the loop.  For \<^verbatim>\<open>-i\<close>, the value of \<^verbatim>\<open>strtoumax\<close> is converted to an
  \<^verbatim>\<open>off_t\<close>, and it is refused when the \<^verbatim>\<open>off_t\<close> is negative or differs from the value.
\<close>

fun parse_options ::
  "platform \<Rightarrow> env \<Rightarrow> getopt list \<Rightarrow> globals \<Rightarrow> (nat \<times> event list) + globals" where
  "parse_options p e [] g = Inr g"
| "parse_options p e (Opt_help # opts) g =
     Inl (if stdout_fails e then (2, [Usage_info, Stdout_error]) else (0, [Usage_info]))"
| "parse_options p e (Opt c optarg # opts) g =
     (if c = CHR ''b'' \<or> c = CHR ''c''
      then parse_options p e opts (g\<lparr>opt_print_bytes := True\<rparr>)
      else if c = CHR ''i''
      then (case strtoumax e optarg of
              (val, numend, err) \<Rightarrow>
                if off_t (off_t_bits p) (int val) < 0 \<or> off_t (off_t_bits p) (int val) \<noteq> int val
                   \<or> err \<or> numend \<noteq> []
                then Inl (2, [Try_help (Some (Invalid_ignore_initial, optarg))])
                else parse_options p e opts
                       (g\<lparr>ignore_initial := nat (off_t (off_t_bits p) (int val))\<rparr>))
      else if c = CHR ''l''
      then parse_options p e opts (g\<lparr>comparison_type := type_all_diffs\<rparr>)
      else if c = CHR ''s''
      then parse_options p e opts (g\<lparr>comparison_type := type_status\<rparr>)
      else if c = CHR ''v''
      then Inl (0, [Version_info])
      else Inl (2, [Try_help None]))"

text \<open>
  The operands: \<open>args\<close> are the arguments from \<^verbatim>\<open>argv[optind]\<close> on, and \<open>last_arg\<close> is
  \<^verbatim>\<open>argv[argc - 1]\<close>.  The result is \<open>(file[0], file[1])\<close>, or what \<open>try_help\<close> writes.
\<close>

definition operands :: "string list \<Rightarrow> string \<Rightarrow> event + (string \<times> string)" where
  "operands args last_arg =
     (case args of
        [] \<Rightarrow> Inl (Try_help (Some (Missing_operand, last_arg)))
      | [a] \<Rightarrow> Inr (a, ''-'')
      | [a, b] \<Rightarrow> Inr (a, b)
      | a # b # c # rest_args \<Rightarrow> Inl (Try_help (Some (Extra_operand, c))))"

text \<open>
  The body of the loop that opens the files, for the file \<open>f1\<close>, after the test of the
  names: \<open>Inl\<close> when the process ends, \<open>Inr\<close> with \<^verbatim>\<open>stat_buf[f1]\<close> otherwise.
\<close>

definition open_operand ::
  "env \<Rightarrow> globals \<Rightarrow> nat \<Rightarrow> state \<Rightarrow> (unit outcome \<times> state) + (stat \<times> state)" where
  "open_operand e g f1 s =
     (case (if file_name g f1 = ''-'' then Some (stdin e) else open_file e (file_name g f1)) of
        None \<Rightarrow>
          if comparison_type g = type_status then Inl (Exit 2, s)
          else Inl (Exit 2, s\<lparr>printed := printed s @ [Error_msg (file_name g f1)]\<rparr>)
      | Some (fl, None) \<Rightarrow>
          Inl (Exit 2, s\<lparr>file_desc := (file_desc s)(f1 := fl),
                          printed := printed s @ [Error_msg (file_name g f1)]\<rparr>)
      | Some (fl, Some st) \<Rightarrow> Inr (st, s\<lparr>file_desc := (file_desc s)(f1 := fl)\<rparr>))"

text \<open>
  \<^verbatim>\<open>for (f = 0; f < 2; f++) { int f1 = f ^ (strcmp (file[1], "-") == 0); ... }\<close>: the file
  treated first is \<open>file[1]\<close> when that is \<^verbatim>\<open>-\<close>; the names are compared before the second
  file is opened.
\<close>

definition open_files ::
  "env \<Rightarrow> globals \<Rightarrow> state \<Rightarrow> (unit outcome \<times> state) + ((nat \<Rightarrow> stat) \<times> state)" where
  "open_files e g s =
     (let first = (if file_name g 1 = ''-'' then 1 else 0 :: nat)
      in case open_operand e g first s of
           Inl r \<Rightarrow> Inl r
         | Inr (st_a, s1) \<Rightarrow>
             if file_name_cmp (file_name g 0) (file_name g 1) = 0 then Inl (Exit 0, s1)
             else (case open_operand e g (1 - first) s1 of
                     Inl r \<Rightarrow> Inl r
                   | Inr (st_b, s2) \<Rightarrow> Inr (\<lambda>f. if f = first then st_a else st_b, s2)))"

text \<open>
  \<^verbatim>\<open>0 < same_file (...) && same_file_attributes (...) && file_position (0) == file_position (1)\<close>
\<close>

definition same_file_shortcut ::
  "platform \<Rightarrow> env \<Rightarrow> globals \<Rightarrow> (nat \<Rightarrow> stat) \<Rightarrow> state \<Rightarrow> bool \<times> state" where
  "same_file_shortcut p e g stat_buf s =
     (if 0 < same_file e (stat_buf 0) (stat_buf 1)
         \<and> same_file_attributes e (stat_buf 0) (stat_buf 1)
      then (case file_position p g 0 s of
              (q0, s0) \<Rightarrow> (case file_position p g 1 s0 of (q1, s1) \<Rightarrow> (q0 = q1, s1)))
      else (False, s))"

text \<open>``If output is redirected to the null device, we may assume \<^verbatim>\<open>-s\<close>.''\<close>

definition null_device_check :: "env \<Rightarrow> globals \<Rightarrow> globals" where
  "null_device_check e g =
     (if comparison_type g \<noteq> type_status
      then (case stdout_stat e of
              None \<Rightarrow> g
            | Some outstat \<Rightarrow>
                (case null_stat e of
                   None \<Rightarrow> g
                 | Some nullstat \<Rightarrow>
                     if 0 < same_file e outstat nullstat
                     then g\<lparr>comparison_type := type_status\<rparr> else g))
      else g)"

text \<open>
  The comparison of the sizes: the result is whether \<open>main\<close> calls \<^verbatim>\<open>exit (1)\<close> here.  The
  differences \<open>s0\<close> and \<open>s1\<close> are values of \<^verbatim>\<open>off_t\<close>.
\<close>

definition size_shortcut ::
  "platform \<Rightarrow> globals \<Rightarrow> (nat \<Rightarrow> stat) \<Rightarrow> state \<Rightarrow> bool \<times> state" where
  "size_shortcut p g stat_buf s =
     (if comparison_type g = type_status \<and> st_isreg (stat_buf 0) \<and> st_isreg (stat_buf 1)
      then (case file_position p g 0 s of
              (q0, s0) \<Rightarrow>
                (case file_position p g 1 s0 of
                   (q1, s1) \<Rightarrow>
                     (max 0 (off_t (off_t_bits p) (st_size (stat_buf 0) - q0)) \<noteq>
                      max 0 (off_t (off_t_bits p) (st_size (stat_buf 1) - q1)), s1)))
      else (False, s))"

text \<open>
  The block size and the buffers.  All three computations are made in \<^verbatim>\<open>size_t\<close>:
  \<^verbatim>\<open>words_per_buffer = (buf_size + 2 * sizeof (word) - 1) / sizeof (word)\<close>, and the block
  has \<^verbatim>\<open>2 * sizeof (word) * words_per_buffer\<close> bytes.  The second buffer starts
  \<open>words_per_buffer\<close> words after the first; the first buffer is taken to end there.
\<close>

definition allocate ::
  "platform \<Rightarrow> env \<Rightarrow> globals \<Rightarrow> (nat \<Rightarrow> stat) \<Rightarrow> state
     \<Rightarrow> (unit outcome \<times> state) + (globals \<times> state)" where
  "allocate p e g stat_buf s =
     (let block_size = size_t (size_t_bits p)
            (buffer_lcm e (STAT_BLOCKSIZE e (stat_buf 0)) (STAT_BLOCKSIZE e (stat_buf 1)));
          words = size_t (size_t_bits p) (block_size + 2 * sizeof_word p - 1) div sizeof_word p
      in case xmalloc e (size_t (size_t_bits p) (2 * sizeof_word p * words)) of
           None \<Rightarrow> Inl (Exit 2, s\<lparr>printed := printed s @ [Memory_exhausted]\<rparr>)
         | Some block \<Rightarrow>
             Inr (g\<lparr>buf_size := block_size\<rparr>,
                  s\<lparr>buffer := (\<lambda>f. if f = 0 then take (sizeof_word p * words) block
                                   else drop (sizeof_word p * words) block)\<rparr>))"

text \<open>
  The end of \<open>main\<close>, after \<open>cmp\<close> has returned \<open>exit_status\<close>: the files are closed, the
  standard output is checked, and the process exits; the status of a process is cut to
  eight bits.
\<close>

definition finish :: "env \<Rightarrow> globals \<Rightarrow> int \<Rightarrow> state \<Rightarrow> unit outcome \<times> state" where
  "finish e g exit_status s =
     (if close_fails e 0
      then (Exit 2, s\<lparr>printed := printed s @ [Error_msg (file_name g 0)]\<rparr>)
      else if close_fails e 1
      then (Exit 2, s\<lparr>printed := printed s @ [Error_msg (file_name g 1)]\<rparr>)
      else if exit_status \<noteq> 0 \<and> comparison_type g \<noteq> type_status \<and> stdout_fails e
      then (Exit 2, s\<lparr>printed := printed s @ [Stdout_error]\<rparr>)
      else (Exit (nat (exit_status mod 256)), s))"

text \<open>\<open>main\<close> from the test of the same file on, with the files open.\<close>

definition compare_files ::
  "platform \<Rightarrow> env \<Rightarrow> globals \<Rightarrow> (nat \<Rightarrow> stat) \<Rightarrow> state \<Rightarrow> (unit outcome \<times> state) option" where
  "compare_files p e g stat_buf s =
     (case same_file_shortcut p e g stat_buf s of
        (True, s1) \<Rightarrow> Some (Exit 0, s1)
      | (False, s1) \<Rightarrow>
     (case size_shortcut p (null_device_check e g) stat_buf s1 of
        (True, s2) \<Rightarrow> Some (Exit 1, s2)
      | (False, s2) \<Rightarrow>
     (case allocate p e (null_device_check e g) stat_buf s2 of
        Inl r \<Rightarrow> Some r
      | Inr (g', s3) \<Rightarrow>
     (case cmp p g' s3 of
        None \<Rightarrow> None
      | Some (Fault, s4) \<Rightarrow> Some (Fault, s4)
      | Some (Exit n, s4) \<Rightarrow> Some (Exit n, s4)
      | Some (Return exit_status, s4) \<Rightarrow> Some (finish e g' exit_status s4)))))"

text \<open>
  \<open>main\<close>, for the results \<open>opts\<close> of \<^verbatim>\<open>getopt_long\<close> and the operands; the result is how
  the process ends, \<open>None\<close> when it does not end.
\<close>

definition main ::
  "platform \<Rightarrow> env \<Rightarrow> getopt list \<Rightarrow> string list \<Rightarrow> string \<Rightarrow> (unit outcome \<times> state) option" where
  "main p e opts args last_arg =
     (case parse_options p e opts initial_globals of
        Inl (n, out) \<Rightarrow> Some (Exit n, (initial_state e)\<lparr>printed := out\<rparr>)
      | Inr g \<Rightarrow>
     (case operands args last_arg of
        Inl ev \<Rightarrow> Some (Exit 2, (initial_state e)\<lparr>printed := [ev]\<rparr>)
      | Inr (a, b) \<Rightarrow>
     (case open_files e (g\<lparr>file_name := (\<lambda>f. if f = 0 then a else b)\<rparr>) (initial_state e) of
        Inl r \<Rightarrow> Some r
      | Inr (stat_buf, s) \<Rightarrow>
          compare_files p e (g\<lparr>file_name := (\<lambda>f. if f = 0 then a else b)\<rparr>) stat_buf s)))"

section \<open>Auxiliary notions for the proofs\<close>

text \<open>The length of the longest common prefix of two lists.\<close>

fun lcp :: "'a list \<Rightarrow> 'a list \<Rightarrow> nat" where
  "lcp (x # xs) (y # ys) = (if x = y then Suc (lcp xs ys) else 0)"
| "lcp xs ys = 0"

text \<open>
  The state in which the read loop of \<open>cmp\<close> runs without a fault and without a read
  error: words and blocks have a positive size, each buffer has room for a block and one
  more word, and no file ends in a read error.
\<close>

definition ready :: "platform \<Rightarrow> globals \<Rightarrow> state \<Rightarrow> bool" where
  "ready p g s \<longleftrightarrow>
     0 < sizeof_word p \<and> 0 < buf_size g \<and>
     buf_size g + sizeof_word p \<le> length (buffer s 0) \<and>
     buf_size g + sizeof_word p \<le> length (buffer s 1) \<and>
     \<not> read_error (file_desc s 0) \<and> \<not> read_error (file_desc s 1)"

text \<open>
  What a run in the mode \<open>type_first_diff\<close> is expected to write for the inputs \<open>xs\<close> and
  \<open>ys\<close>, when the character number before the first byte is \<open>cn\<close> and the line number
  is \<open>ln\<close>; the numbers are cut to the bits of an \<^verbatim>\<open>off_t\<close>.
\<close>

definition first_diff_events ::
  "platform \<Rightarrow> globals \<Rightarrow> int \<Rightarrow> int \<Rightarrow> byte list \<Rightarrow> byte list \<Rightarrow> event list" where
  "first_diff_events p g cn ln xs ys =
     (if lcp xs ys < min (length xs) (length ys)
      then [if \<not> opt_print_bytes g
            then Differ (file_name g 0) (file_name g 1)
                   (off_t (off_t_bits p) (cn + int (lcp xs ys)))
                   (off_t (off_t_bits p) (ln + int (count_list (take (lcp xs ys) xs) 10)))
            else Differ_bytes (file_name g 0) (file_name g 1)
                   (off_t (off_t_bits p) (cn + int (lcp xs ys)))
                   (off_t (off_t_bits p) (ln + int (count_list (take (lcp xs ys) xs) 10)))
                   (xs ! lcp xs ys) (sprintc (printable p) 0 (xs ! lcp xs ys))
                   (ys ! lcp xs ys) (sprintc (printable p) 0 (ys ! lcp xs ys))]
      else if length xs \<noteq> length ys
      then [EOF_on (file_name g (if length ys < length xs then 1 else 0))]
      else [])"

text \<open>The same for the mode \<open>type_all_diffs\<close>.\<close>

definition all_diffs_events ::
  "platform \<Rightarrow> globals \<Rightarrow> int \<Rightarrow> byte list \<Rightarrow> byte list \<Rightarrow> event list" where
  "all_diffs_events p g cn xs ys =
     map (\<lambda>i. diff_line p g (off_t (off_t_bits p) (cn + int i)) (xs ! i) (ys ! i))
       (filter (\<lambda>i. xs ! i \<noteq> ys ! i) [0..<min (length xs) (length ys)]) @
     (if length xs \<noteq> length ys
      then [EOF_on (file_name g (if length ys < length xs then 1 else 0))]
      else [])"

text \<open>
  The two calls of \<open>file_position\<close> that \<open>main\<close> makes for the test of the same file and
  again for the comparison of the sizes.
\<close>

definition both_positions :: "platform \<Rightarrow> globals \<Rightarrow> state \<Rightarrow> int \<times> int \<times> state" where
  "both_positions p g s =
     (case file_position p g 0 s of
        (q0, s0) \<Rightarrow> (case file_position p g 1 s0 of (q1, s1) \<Rightarrow> (q0, q1, s1)))"


section \<open>Example data\<close>

text \<open>
  A machine with words of two bytes and an \<^verbatim>\<open>off_t\<close> of 64 bits, blocks of two bytes, one
  initial byte to ignore, and two freshly opened files.  After the first byte, \<open>ex_file0\<close>
  and \<open>ex_file1\<close> agree on three bytes, one of them a newline, and differ at the fourth;
  \<open>ex_file2\<close> continues \<open>ex_file0\<close>, and \<open>ex_file3\<close> is longer than \<open>ex_file0\<close> and differs from
  it at the second and at the fifth byte.
\<close>

definition ex_platform :: platform where
  "ex_platform =
     \<lparr>sizeof_word = 2, byte_order = Little_endian, printable = ISPRINT_C, off_t_bits = 64,
      size_t_bits = 64\<rparr>"

definition ex_globals :: "comparison_type \<Rightarrow> globals" where
  "ex_globals t =
     \<lparr>file_name = (\<lambda>f. if f = 0 then ''a'' else ''b''), buf_size = 2, ignore_initial = 1,
      comparison_type = t, opt_print_bytes = False\<rparr>"

definition ex_stream :: "byte list \<Rightarrow> stream" where
  "ex_stream bs = \<lparr>data = bs, pos = 0, seekable = True, read_error = False, reads = 0\<rparr>"

definition ex_file0 :: "byte list" where
  "ex_file0 = [120, 97, 10, 98, 99]"

definition ex_file1 :: "byte list" where
  "ex_file1 = [121, 97, 10, 98, 100]"

definition ex_file2 :: "byte list" where
  "ex_file2 = [120, 97, 10, 98, 99, 100]"

definition ex_file3 :: "byte list" where
  "ex_file3 = [120, 98, 10, 98, 100, 101]"

definition ex_state :: "byte list \<Rightarrow> byte list \<Rightarrow> state" where
  "ex_state bs0 bs1 =
     \<lparr>file_desc = (\<lambda>f. if f = 0 then ex_stream bs0
                       else if f = 1 then ex_stream bs1 else ex_stream []),
      buffer = (\<lambda>f. [0, 0, 0, 0]),
      positioned = (\<lambda>f. False), position = (\<lambda>f. 0), printed = []\<rparr>"


text \<open>
  Surroundings in which \<open>a\<close> names a regular file with the contents \<open>ex_file0\<close> and \<open>b\<close>
  a regular file with the contents \<open>bs\<close>, no other file can be opened, the standard input
  is empty, and the standard output is not the null device.  In \<open>ex_env\<close> the file \<open>b\<close> has
  the contents \<open>ex_file2\<close>, of 6 bytes; in \<open>ex_env_null\<close> moreover the standard output is
  the null device.
\<close>

definition ex_files :: "byte list \<Rightarrow> env" where
  "ex_files bs =
     \<lparr>strtoumax = (\<lambda>str. if str = ''1'' then (1, [], False) else (0, str, False)),
      open_file = (\<lambda>name.
        if name = ''a''
        then Some (ex_stream ex_file0, Some \<lparr>st_size = 5, st_isreg = True, st_other = 1\<rparr>)
        else if name = ''b''
        then Some (ex_stream bs,
                   Some \<lparr>st_size = int (length bs), st_isreg = True, st_other = 2\<rparr>)
        else None),
      stdin = (ex_stream [], Some \<lparr>st_size = 0, st_isreg = False, st_other = 0\<rparr>),
      stdout_stat = Some \<lparr>st_size = 0, st_isreg = False, st_other = 3\<rparr>,
      null_stat = Some \<lparr>st_size = 0, st_isreg = False, st_other = 4\<rparr>,
      same_file = (\<lambda>x y. if st_other x = st_other y then 1 else 0),
      same_file_attributes = (\<lambda>x y. st_size x = st_size y),
      STAT_BLOCKSIZE = (\<lambda>st. 2),
      buffer_lcm = max,
      heap_limit = 1000,
      heap_junk = (\<lambda>i. 0),
      close_fails = (\<lambda>f. False),
      stdout_fails = False\<rparr>"

definition ex_env :: env where
  "ex_env = ex_files ex_file2"

definition ex_env_null :: env where
  "ex_env_null = ex_env\<lparr>stdout_stat := null_stat ex_env\<rparr>"

section \<open>Words and bytes\<close>

declare words_loop.simps [simp del] bytes_loop.simps [simp del]
  words_loop_count.simps [simp del] bytes_loop_count.simps [simp del]
  pad.simps [simp del]

lemma unat_byte_less: "unat (b :: byte) < 256"
  using unsigned_less [of b] by simp

lemma byte_digit_eq:
  assumes "(x::nat) < 256" "y < 256" "x + 256 * a = y + 256 * b"
  shows "x = y \<and> a = b"
proof -
  have "(x + 256 * a) mod 256 = (y + 256 * b) mod 256"
    by (simp only: assms(3))
  with assms(1,2) have "x = y" by simp
  with assms(3) show ?thesis by simp
qed

lemma le_value_inj:
  "length xs = length ys \<Longrightarrow> le_value xs = le_value ys \<longleftrightarrow> xs = ys"
proof (induction xs ys rule: list_induct2)
  case Nil
  show ?case by simp
next
  case (Cons x xs y ys)
  have "x = y \<and> le_value xs = le_value ys" if "le_value (x # xs) = le_value (y # ys)"
  proof -
    from that have "unat x + 256 * le_value xs = unat y + 256 * le_value ys" by simp
    from byte_digit_eq [OF unat_byte_less unat_byte_less this]
    have "unat x = unat y" and "le_value xs = le_value ys" by simp_all
    then show ?thesis by (simp only: word_unat_eq_iff)
  qed
  with Cons.IH show ?case by auto
qed

lemma word_value_inj:
  "length xs = length ys \<Longrightarrow> word_value e xs = word_value e ys \<longleftrightarrow> xs = ys"
  by (cases e) (simp_all add: word_value_def le_value_inj)

lemma le_value_less: "le_value bs < 256 ^ length bs"
proof (induction bs)
  case Nil
  show ?case by simp
next
  case (Cons b bs)
  from Cons.IH have "le_value bs + 1 \<le> 256 ^ length bs" by simp
  then have "256 * (le_value bs + 1) \<le> 256 * 256 ^ length bs"
    by (rule mult_le_mono2)
  moreover have "unat b + 256 * le_value bs < 256 * (le_value bs + 1)"
    using unat_byte_less [of b] by simp
  ultimately show ?case by simp
qed

lemma push_or_byte:
  assumes "m < 256"
  shows "push_bit 8 (n::nat) OR m = 256 * n + m"
proof -
  have m: "take_bit 8 m = m"
    using assms by (simp add: take_bit_nat_eq_self)
  have "push_bit 8 n + m = push_bit 8 n OR m"
  proof (rule disjunctive_add)
    fix k
    have "bit m k \<Longrightarrow> k < 8"
      using bit_take_bit_iff [of 8 m k] by (simp add: m)
    then show "\<not> bit (push_bit 8 n) k \<or> \<not> bit m k"
      by (auto simp: bit_push_bit_iff)
  qed
  then show ?thesis by (simp add: push_bit_eq_mult)
qed

lemma le_value_replicate_Suc:
  "le_value (replicate (Suc i) 10) = 256 * le_value (replicate i 10) + 10"
  by simp

lemma nnnn_loop_eq: "i \<le> W \<Longrightarrow> nnnn_loop W i = le_value (replicate i 10)"
proof (induction i)
  case 0
  show ?case by simp
next
  case (Suc i)
  let ?x = "le_value (replicate i 10)"
  have "?x < 256 ^ i"
    using le_value_less [of "replicate i 10"] by simp
  then have "256 * ?x < 256 * 256 ^ i" by simp
  also have "\<dots> \<le> (256::nat) ^ W"
    using Suc.prems power_increasing [of "Suc i" W "256::nat"] by simp
  also have "\<dots> = 2 ^ (8 * W)"
    by (simp add: power_mult)
  finally have "take_bit (8 * W) (push_bit 8 ?x) = push_bit 8 ?x"
    by (simp add: take_bit_nat_eq_self push_bit_eq_mult mult.commute)
  then have "nnnn_loop W (Suc i) = push_bit 8 ?x OR 10"
    using Suc by simp
  also have "\<dots> = 256 * ?x + 10"
    by (rule push_or_byte) simp
  finally show ?case by simp
qed

lemma xor_nat_eq_0_iff: "(a::nat) XOR b = 0 \<longleftrightarrow> a = b"
  by (metis xor_self_eq xor.right_neutral xor.assoc)

lemma count_zero_bytes_le:
  "count_zero_bytes (length bs) (le_value bs XOR le_value (replicate (length bs) 10)) cnt
     = cnt + count_list bs 10"
proof (induction bs arbitrary: cnt)
  case Nil
  show ?case by simp
next
  case (Cons b bs)
  let ?x = "le_value bs" and ?y = "le_value (replicate (length bs) 10)"
  have t0: "take_bit 8 (unat b + 256 * ?x) = unat b" "take_bit 8 (10 + 256 * ?y) = 10"
    using unat_byte_less [of b] by (simp_all add: take_bit_eq_mod)
  have t: "take_bit 8 ((unat b + 256 * ?x) XOR (10 + 256 * ?y)) = unat b XOR 10"
    unfolding take_bit_xor t0 ..
  have d0: "drop_bit 8 (unat b + 256 * ?x) = ?x" "drop_bit 8 (10 + 256 * ?y) = ?y"
    using unat_byte_less [of b] by (simp_all add: drop_bit_eq_div)
  have d: "drop_bit 8 ((unat b + 256 * ?x) XOR (10 + 256 * ?y)) = ?x XOR ?y"
    unfolding drop_bit_xor d0 ..
  have "unat b = unat (10 :: byte) \<longleftrightarrow> b = 10"
    by (rule word_unat_eq_iff [symmetric])
  then have z: "unat b XOR 10 = 0 \<longleftrightarrow> b = 10"
    by (simp add: xor_nat_eq_0_iff)
  have "count_zero_bytes (length (b # bs))
          (le_value (b # bs) XOR le_value (replicate (length (b # bs)) 10)) cnt =
        count_zero_bytes (length bs) (?x XOR ?y) (cnt + (if b = 10 then 1 else 0))"
    by (simp add: t d z del: take_bit_xor drop_bit_xor)
  also have "\<dots> = cnt + (if b = 10 then 1 else 0) + count_list bs 10"
    by (rule Cons.IH)
  finally show ?case by simp
qed

lemma count_zero_bytes_word:
  assumes "length bs = W"
  shows "count_zero_bytes W (word_value e bs XOR nnnn_loop W W) cnt = cnt + count_list bs 10"
proof (cases e)
  case Little_endian
  then show ?thesis
    using count_zero_bytes_le [of bs cnt] assms
    by (simp add: word_value_def nnnn_loop_eq)
next
  case Big_endian
  then show ?thesis
    using count_zero_bytes_le [of "rev bs" cnt] assms
    by (simp add: word_value_def nnnn_loop_eq)
qed


lemma slice_nth:
  "a + W \<le> length p \<Longrightarrow> j < W \<Longrightarrow> take W (drop a p) ! j = p ! (a + j)"
  by simp

lemma slice_eq_iff:
  assumes "a + W \<le> length p0" "a + W \<le> length p1"
  shows "take W (drop a p0) = take W (drop a p1) \<longleftrightarrow> (\<forall>j<W. p0 ! (a + j) = p1 ! (a + j))"
  using assms by (simp add: list_eq_iff_nth_eq)

lemma load_word_eq_iff:
  assumes "load_word W e p0 i = Some l" "load_word W e p1 i = Some l'"
  shows "l = l' \<longleftrightarrow> (\<forall>j<W. p0 ! (W * i + j) = p1 ! (W * i + j))"
proof -
  from assms have b: "W * i + W \<le> length p0" "W * i + W \<le> length p1"
    and l: "l = word_value e (take W (drop (W * i) p0))"
    and l': "l' = word_value e (take W (drop (W * i) p1))"
    by (auto simp: load_word_def split: if_splits)
  have "l = l' \<longleftrightarrow> take W (drop (W * i) p0) = take W (drop (W * i) p1)"
    unfolding l l' using b by (intro word_value_inj) simp
  then show ?thesis
    using slice_eq_iff [OF b] by simp
qed

lemma words_loop_first_diff:
  assumes W: "0 < W"
    and eq: "\<forall>j<k. p0 ! j = p1 ! j"
    and ne: "p0 ! k \<noteq> p1 ! k"
    and b0: "W * (k div W) + W \<le> length p0"
    and b1: "W * (k div W) + W \<le> length p1"
  shows "i \<le> k div W \<Longrightarrow> words_loop W e p0 p1 i = Some (k div W)"
proof (induction "k div W - i" arbitrary: i)
  case 0
  then have i: "i = k div W" by simp
  obtain l l' where l: "load_word W e p0 i = Some l" "load_word W e p1 i = Some l'"
    using W b0 b1 by (simp add: load_word_def i)
  have "k mod W < W" using W by simp
  moreover have "W * i + k mod W = k" by (simp add: i)
  ultimately have "\<not> (\<forall>j<W. p0 ! (W * i + j) = p1 ! (W * i + j))"
    using ne by metis
  then have "l \<noteq> l'"
    using load_word_eq_iff [OF l] by simp
  then show ?case
    by (subst words_loop.simps, simp add: l, simp add: i)
next
  case (Suc n)
  then have i: "i < k div W" by simp
  then have "Suc i \<le> k div W" by simp
  then have "W * Suc i \<le> W * (k div W)" by (rule mult_le_mono2)
  then have le: "W * i + W \<le> W * (k div W)" by simp
  obtain l l' where l: "load_word W e p0 i = Some l" "load_word W e p1 i = Some l'"
    using W b0 b1 le by (simp add: load_word_def)
  have "W * (k div W) \<le> k" by simp
  with le have "W * i + W \<le> k" by (rule order_trans)
  then have "\<forall>j<W. W * i + j < k" by auto
  with eq have "l = l'"
    using load_word_eq_iff [OF l] by simp
  moreover have "words_loop W e p0 p1 (i + 1) = Some (k div W)"
    using Suc i by (intro Suc.hyps(1)) auto
  ultimately show ?case
    by (subst words_loop.simps) (simp add: l)
qed

lemma bytes_loop_first_diff:
  assumes eq: "\<forall>j<k. p0 ! j = p1 ! j"
    and ne: "p0 ! k \<noteq> p1 ! k"
    and b0: "k < length p0"
    and b1: "k < length p1"
  shows "j \<le> k \<Longrightarrow> bytes_loop p0 p1 j = Some k"
proof (induction "k - j" arbitrary: j)
  case 0
  then have "j = k" by simp
  then show ?case
    using ne b0 b1 by (subst bytes_loop.simps) (simp add: load_byte_def)
next
  case (Suc n)
  then have j: "j < k" by simp
  then have "p0 ! j = p1 ! j" using eq by simp
  moreover have "bytes_loop p0 p1 (j + 1) = Some k"
    using Suc j by (intro Suc.hyps(1)) auto
  ultimately show ?case
    using j b0 b1 by (subst bytes_loop.simps) (simp add: load_byte_def)
qed

lemma block_compare_first_diff:
  assumes "0 < W"
    and "\<forall>j<k. p0 ! j = p1 ! j"
    and "p0 ! k \<noteq> p1 ! k"
    and "W * (k div W) + W \<le> length p0"
    and "W * (k div W) + W \<le> length p1"
  shows "block_compare W e p0 p1 = Some k"
proof -
  have w: "words_loop W e p0 p1 0 = Some (k div W)"
    using assms by (intro words_loop_first_diff) simp_all
  have "k < W * (k div W) + W"
    using \<open>0 < W\<close> by (metis add.commute dividend_less_times_div)
  then have "bytes_loop p0 p1 (W * (k div W)) = Some k"
    using assms by (intro bytes_loop_first_diff) simp_all
  with w show ?thesis by (simp add: block_compare_def)
qed

lemma take_slice_count:
  "count_list (take (a + W) p) x = count_list (take a p) x + count_list (take W (drop a p)) x"
  by (simp add: take_add)

lemma words_loop_count_eq:
  "cnt = c + count_list (take (W * i) p0) 10 \<Longrightarrow>
   words_loop_count W e p0 p1 i cnt =
     map_option (\<lambda>i'. (i', c + count_list (take (W * i') p0) 10)) (words_loop W e p0 p1 i)"
proof (induction W e p0 p1 i arbitrary: cnt rule: words_loop.induct)
  case (1 W e p0 p1 i)
  show ?case
  proof (cases "load_word W e p0 i")
    case None
    then show ?thesis
      by (subst words_loop_count.simps, subst words_loop.simps) simp
  next
    case l: (Some l)
    show ?thesis
    proof (cases "load_word W e p1 i")
      case None
      then show ?thesis
        by (subst words_loop_count.simps, subst words_loop.simps) (simp add: l)
    next
      case l': (Some l')
      show ?thesis
      proof (cases "l = l'")
        case False
        then show ?thesis
          using "1.prems"
          by (subst words_loop_count.simps, subst words_loop.simps) (simp add: l l')
      next
        case True
        from l have len: "length (take W (drop (W * i) p0)) = W"
          and lv: "l = word_value e (take W (drop (W * i) p0))"
          by (auto simp: load_word_def split: if_splits)
        have "count_list (take (W * (i + 1)) p0) 10 =
                count_list (take (W * i) p0) 10 + count_list (take W (drop (W * i) p0)) 10"
          using take_slice_count [of "W * i" W p0 10] by (simp add: add.commute)
        then have "count_zero_bytes W (l XOR nnnn_loop W W) cnt
                = c + count_list (take (W * (i + 1)) p0) 10"
          unfolding lv using "1.prems"
          by (simp add: count_zero_bytes_word [OF len])
        then have "words_loop_count W e p0 p1 (i + 1)
                     (count_zero_bytes W (l XOR nnnn_loop W W) cnt) =
                   map_option (\<lambda>i'. (i', c + count_list (take (W * i') p0) 10))
                     (words_loop W e p0 p1 (i + 1))"
          using True l l' by (intro "1.IH") auto
        then show ?thesis
          using True
          by (subst words_loop_count.simps, subst words_loop.simps) (simp add: l l')
      qed
    qed
  qed
qed

lemma bytes_loop_count_eq:
  "cnt = c + count_list (take j p0) 10 \<Longrightarrow>
   bytes_loop_count p0 p1 j cnt =
     map_option (\<lambda>k. (k, c + count_list (take k p0) 10)) (bytes_loop p0 p1 j)"
proof (induction p0 p1 j arbitrary: cnt rule: bytes_loop.induct)
  case (1 p0 p1 j)
  show ?case
  proof (cases "j < length p0 \<and> j < length p1 \<and> p0 ! j = p1 ! j")
    case False
    then show ?thesis
      using "1.prems"
      by (subst bytes_loop_count.simps, subst bytes_loop.simps)
         (auto simp: load_byte_def)
  next
    case True
    then have "cnt + (if p0 ! j = 10 then 1 else 0) = c + count_list (take (j + 1) p0) 10"
      using "1.prems" by (simp add: take_Suc_conv_app_nth)
    then have "bytes_loop_count p0 p1 (j + 1) (cnt + (if p0 ! j = 10 then 1 else 0)) =
               map_option (\<lambda>k. (k, c + count_list (take k p0) 10)) (bytes_loop p0 p1 (j + 1))"
      using True by (intro "1.IH") (auto simp: load_byte_def)
    then show ?thesis
      using True
      by (subst bytes_loop_count.simps, subst bytes_loop.simps) (simp add: load_byte_def)
  qed
qed

lemma block_compare_and_count_eq:
  "block_compare_and_count N W e p0 p1 count =
     map_option (\<lambda>k. (k, off_t N (count + int (count_list (take k p0) 10))))
       (block_compare W e p0 p1)"
proof (cases "words_loop W e p0 p1 0")
  case None
  then show ?thesis
    using words_loop_count_eq [of 0 0 W 0 p0 e p1]
    by (simp add: block_compare_and_count_def block_compare_def)
next
  case (Some i)
  then have w: "words_loop_count W e p0 p1 0 0 = Some (i, count_list (take (W * i) p0) 10)"
    using words_loop_count_eq [of 0 0 W 0 p0 e p1] by simp
  have "bytes_loop_count p0 p1 (W * i) (count_list (take (W * i) p0) 10) =
          map_option (\<lambda>k. (k, 0 + count_list (take k p0) 10)) (bytes_loop p0 p1 (W * i))"
    by (intro bytes_loop_count_eq) simp
  then show ?thesis
    using Some w
    by (cases "bytes_loop p0 p1 (W * i)")
       (simp_all add: block_compare_and_count_def block_compare_def)
qed

section \<open>Values of the type \<^verbatim>\<open>off_t\<close>\<close>

lemma off_t_in_range: "- (2 ^ (N - 1)) \<le> x \<Longrightarrow> x < 2 ^ (N - 1) \<Longrightarrow> off_t N x = x"
  by (simp add: off_t_def signed_take_bit_int_eq_self)

lemma off_t_add_left [simp]: "off_t N (off_t N x + y) = off_t N (x + y)"
proof -
  have "off_t N (off_t N x + y) = off_t N (off_t N (off_t N x) + off_t N y)"
    unfolding off_t_def by (simp only: signed_take_bit_add)
  also have "\<dots> = off_t N (off_t N x + off_t N y)"
    by (simp add: off_t_def)
  also have "\<dots> = off_t N (x + y)"
    unfolding off_t_def by (simp only: signed_take_bit_add)
  finally show ?thesis .
qed

lemma off_t_add_right [simp]: "off_t N (x + off_t N y) = off_t N (x + y)"
  using off_t_add_left [of N y x] by (simp only: add.commute)


section \<open>Sentinels\<close>

lemma byte_not_neq: "NOT (x :: byte) \<noteq> x"
proof
  assume "NOT x = x"
  then have "bit (NOT x) 0 = bit x 0" by simp
  then show False by (simp add: bit_not_iff)
qed

lemma insert_sentinels_Some:
  assumes "read0 < length buf0" "read0 < length buf1" "read1 < length buf0" "read1 < length buf1"
  obtains b0 b1 where "insert_sentinels buf0 buf1 read0 read1 = Some (b0, b1)"
    and "length b0 = length buf0" and "length b1 = length buf1"
    and "b0 ! min read0 read1 \<noteq> b1 ! min read0 read1"
    and "\<forall>j<min read0 read1. b0 ! j = buf0 ! j \<and> b1 ! j = buf1 ! j"
proof -
  define b0 where "b0 = buf0[read0 := NOT (buf1 ! read0)]"
  define b1 where "b1 = buf1[read1 := NOT (b0 ! read1)]"
  have s: "insert_sentinels buf0 buf1 read0 read1 = Some (b0, b1)"
    using assms by (simp add: insert_sentinels_def b0_def b1_def Let_def)
  have l: "length b0 = length buf0" "length b1 = length buf1"
    by (simp_all add: b0_def b1_def)
  have ne: "b0 ! min read0 read1 \<noteq> b1 ! min read0 read1"
  proof (cases read0 read1 rule: linorder_cases)
    case less
    then show ?thesis
      using assms byte_not_neq [of "buf1 ! read0"] by (simp add: b0_def b1_def min_def)
  next
    case equal
    then show ?thesis
      using assms byte_not_neq [of "buf1 ! read0"] by (simp add: b0_def b1_def)
  next
    case greater
    then show ?thesis
      using assms byte_not_neq [of "buf0 ! read1"] by (simp add: b0_def b1_def min_def)
  qed
  have "\<forall>j<min read0 read1. b0 ! j = buf0 ! j \<and> b1 ! j = buf1 ! j"
    by (simp add: b0_def b1_def)
  with s l ne show ?thesis by (rule that)
qed

lemma words_per_buffer_room:
  assumes "0 < W"
  shows "block_size + W \<le> W * words_per_buffer W block_size"
proof -
  let ?n = "block_size + 2 * W - 1"
  have "?n mod W < W" using assms by simp
  moreover have "W * (?n div W) + ?n mod W = ?n" by simp
  ultimately have "?n < W * (?n div W) + W" by linarith
  then show ?thesis
    using assms by (simp add: words_per_buffer_def)
qed

lemma first_diff_exists:
  assumes "(p0 :: byte list) ! m \<noteq> p1 ! m"
  obtains k where "k \<le> m" and "\<forall>j<k. p0 ! j = p1 ! j" and "p0 ! k \<noteq> p1 ! k"
proof -
  define k where "k = (LEAST j. p0 ! j \<noteq> p1 ! j)"
  have "p0 ! k \<noteq> p1 ! k"
    unfolding k_def using assms by (rule LeastI)
  moreover have "k \<le> m"
    unfolding k_def using assms by (rule Least_le)
  moreover have "\<forall>j<k. p0 ! j = p1 ! j"
    unfolding k_def using not_less_Least by blast
  ultimately show ?thesis using that by blast
qed

lemma word_of_first_diff_inside:
  assumes "0 < (W::nat)" "k \<le> block_size" "block_size + W \<le> n"
  shows "W * (k div W) + W \<le> n"
proof -
  have "W * (k div W) \<le> k" by simp
  with assms show ?thesis by linarith
qed

lemma sentinel_block_compare:
  assumes W: "0 < W" and r: "read0 \<le> block_size" "read1 \<le> block_size"
    and c: "block_size + W \<le> length buf0" "block_size + W \<le> length buf1"
  obtains b0 b1 k where "insert_sentinels buf0 buf1 read0 read1 = Some (b0, b1)"
    and "length b0 = length buf0" and "length b1 = length buf1"
    and "\<forall>j<min read0 read1. b0 ! j = buf0 ! j \<and> b1 ! j = buf1 ! j"
    and "block_compare W e b0 b1 = Some k"
    and "k \<le> min read0 read1" and "\<forall>j<k. b0 ! j = b1 ! j" and "b0 ! k \<noteq> b1 ! k"
proof -
  from W r c have "read0 < length buf0" "read0 < length buf1"
    "read1 < length buf0" "read1 < length buf1" by simp_all
  then obtain b0 b1 where s: "insert_sentinels buf0 buf1 read0 read1 = Some (b0, b1)"
    and l: "length b0 = length buf0" "length b1 = length buf1"
    and ne: "b0 ! min read0 read1 \<noteq> b1 ! min read0 read1"
    and old: "\<forall>j<min read0 read1. b0 ! j = buf0 ! j \<and> b1 ! j = buf1 ! j"
    by (rule insert_sentinels_Some)
  from ne obtain k where k: "k \<le> min read0 read1" "\<forall>j<k. b0 ! j = b1 ! j" "b0 ! k \<noteq> b1 ! k"
    by (rule first_diff_exists)
  from k(1) r have kb: "k \<le> block_size" by simp
  have "W * (k div W) + W \<le> length b0" "W * (k div W) + W \<le> length b1"
    using word_of_first_diff_inside [OF W kb] c l by simp_all
  with W k have b: "block_compare W e b0 b1 = Some k"
    by (intro block_compare_first_diff)
  show ?thesis by (rule that [OF s l old b k])
qed


section \<open>The block comparator on a block pair with sentinels\<close>

text \<open>
  Claim C2.  Two buffers of the size that \<open>main\<close> allocates hold \<open>read0\<close> and \<open>read1\<close>
  bytes of data, at most \<open>block_size\<close> each.  Then the sentinels are written inside the
  buffers, and \<open>block_compare\<close> on the result returns an offset \<open>k\<close> without reading
  outside a buffer: \<open>k\<close> is the offset of the first byte at which the buffers differ, it
  is at most the shorter read length, the bytes before the shorter read length are the data
  bytes, and when the data agree up to the shorter read length, \<open>k\<close> is that length.  The
  last word that the scan reads lies inside both buffers.
\<close>

theorem block_compare_sentinel_exact:
  assumes "0 < W" and "read0 \<le> block_size" and "read1 \<le> block_size"
    and "length buf0 = W * words_per_buffer W block_size"
    and "length buf1 = W * words_per_buffer W block_size"
  shows "\<exists>b0 b1 k. insert_sentinels buf0 buf1 read0 read1 = Some (b0, b1) \<and>
           (\<forall>j<min read0 read1. b0 ! j = buf0 ! j \<and> b1 ! j = buf1 ! j) \<and>
           block_compare W e b0 b1 = Some k \<and>
           k \<le> min read0 read1 \<and> (\<forall>j<k. b0 ! j = b1 ! j) \<and> b0 ! k \<noteq> b1 ! k \<and>
           ((\<forall>j<min read0 read1. buf0 ! j = buf1 ! j) \<longrightarrow> k = min read0 read1) \<and>
           W * (k div W) + W \<le> length b0 \<and> W * (k div W) + W \<le> length b1"
proof -
  have c: "block_size + W \<le> length buf0" "block_size + W \<le> length buf1"
    using assms words_per_buffer_room [of W block_size] by simp_all
  obtain b0 b1 k where s: "insert_sentinels buf0 buf1 read0 read1 = Some (b0, b1)"
    and l: "length b0 = length buf0" "length b1 = length buf1"
    and old: "\<forall>j<min read0 read1. b0 ! j = buf0 ! j \<and> b1 ! j = buf1 ! j"
    and b: "block_compare W e b0 b1 = Some k"
    and k: "k \<le> min read0 read1" "\<forall>j<k. b0 ! j = b1 ! j" "b0 ! k \<noteq> b1 ! k"
    using assms(1-3) c by (rule sentinel_block_compare)
  have "k = min read0 read1" if "\<forall>j<min read0 read1. buf0 ! j = buf1 ! j"
  proof (rule ccontr)
    assume "k \<noteq> min read0 read1"
    with k(1) have "k < min read0 read1" by linarith
    with that old have "b0 ! k = b1 ! k" by simp
    with k(3) show False by simp
  qed
  moreover from k(1) assms(2) have "k \<le> block_size" by simp
  then have "W * (k div W) + W \<le> length b0" "W * (k div W) + W \<le> length b1"
    using word_of_first_diff_inside [OF assms(1)] c l by simp_all
  ultimately show ?thesis
    using s old b k by blast
qed

theorem block_compare_sentinel_exact_witness:
  "\<exists>b0 b1 k. insert_sentinels [1, 2, 7, 7] [1, 2, 3, 4] 2 2 = Some (b0, b1) \<and>
     block_compare 2 Big_endian b0 b1 = Some k \<and> k = 2"
proof -
  have "j < 2 \<Longrightarrow> [1, 2, 7, 7 :: byte] ! j = [1, 2, 3, 4] ! j" for j
    by (cases j) (simp_all add: less_Suc_eq numeral_2_eq_2)
  then have "\<forall>j<min 2 2. [1, 2, 7, 7 :: byte] ! j = [1, 2, 3, 4] ! j"
    by simp
  with block_compare_sentinel_exact [of 2 2 2 2 "[1, 2, 7, 7]" "[1, 2, 3, 4]" Big_endian]
  show ?thesis
    by (simp add: words_per_buffer_def) blast
qed


text \<open>
  Claim C3.  On a block pair with sentinels, \<open>block_compare_and_count\<close> returns the offset
  \<open>k\<close> that \<open>block_compare\<close> returns.  The bytes before that offset are the same in both
  buffers, and the count is incremented by the number of newline bytes (byte 10) among
  them: the new count is the sum cut to the \<open>N\<close> bits of an \<^verbatim>\<open>off_t\<close>, and it is the sum
  itself whenever the count and the sum are values of that type.
\<close>

theorem block_compare_and_count_refines:
  assumes "0 < W" and "read0 \<le> block_size" and "read1 \<le> block_size"
    and "length buf0 = W * words_per_buffer W block_size"
    and "length buf1 = W * words_per_buffer W block_size"
  shows "\<exists>b0 b1 k. insert_sentinels buf0 buf1 read0 read1 = Some (b0, b1) \<and>
           block_compare W e b0 b1 = Some k \<and>
           block_compare_and_count N W e b0 b1 count =
             Some (k, off_t N (count + int (count_list (take k b0) 10))) \<and>
           (- (2 ^ (N - 1)) \<le> count \<and> count + int (count_list (take k b0) 10) < 2 ^ (N - 1)
              \<longrightarrow> block_compare_and_count N W e b0 b1 count =
                    Some (k, count + int (count_list (take k b0) 10))) \<and>
           take k b0 = take k b1"
proof -
  have c: "block_size + W \<le> length buf0" "block_size + W \<le> length buf1"
    using assms words_per_buffer_room [of W block_size] by simp_all
  obtain b0 b1 k where s: "insert_sentinels buf0 buf1 read0 read1 = Some (b0, b1)"
    and l: "length b0 = length buf0" "length b1 = length buf1"
    and b: "block_compare W e b0 b1 = Some k"
    and k: "k \<le> min read0 read1" "\<forall>j<k. b0 ! j = b1 ! j"
    using assms(1-3) c by (rule sentinel_block_compare)
  from k(1) assms(2) c l have "k \<le> length b0" "k \<le> length b1" by simp_all
  with k(2) have t: "take k b0 = take k b1"
    by (simp add: list_eq_iff_nth_eq)
  let ?n = "int (count_list (take k b0) 10)"
  have r: "block_compare_and_count N W e b0 b1 count = Some (k, off_t N (count + ?n))"
    using b by (simp add: block_compare_and_count_eq)
  have "off_t N (count + ?n) = count + ?n"
    if "- (2 ^ (N - 1)) \<le> count \<and> count + ?n < 2 ^ (N - 1)"
  proof (rule off_t_in_range)
    from that show "- (2 ^ (N - 1)) \<le> count + ?n" by linarith
    from that show "count + ?n < 2 ^ (N - 1)" by simp
  qed
  with s b r t show ?thesis by auto
qed

theorem block_compare_and_count_refines_witness:
  "\<exists>b0 b1 k. insert_sentinels [10, 2, 7, 7] [10, 2, 3, 4] 2 2 = Some (b0, b1) \<and>
     block_compare 2 Little_endian b0 b1 = Some k \<and>
     block_compare_and_count 64 2 Little_endian b0 b1 1 =
       Some (k, 1 + int (count_list (take k b0) 10))"
proof -
  from block_compare_and_count_refines
    [of 2 2 2 2 "[10, 2, 7, 7]" "[10, 2, 3, 4]" Little_endian 64 1]
  obtain b0 b1 k where *: "insert_sentinels [10, 2, 7, 7] [10, 2, 3, 4] 2 2 = Some (b0, b1)"
    "block_compare 2 Little_endian b0 b1 = Some k"
    "- (2 ^ (64 - 1)) \<le> (1::int) \<and> 1 + int (count_list (take k b0) 10) < 2 ^ (64 - 1)
       \<longrightarrow> block_compare_and_count 64 2 Little_endian b0 b1 1 =
             Some (k, 1 + int (count_list (take k b0) 10))"
    by (auto simp: words_per_buffer_def)
  have "count_list (take k b0) 10 \<le> length (take k b0)"
    by (rule count_le_length)
  also from * have "length b0 = 4" by (auto simp: insert_sentinels_def)
  then have "length (take k b0) \<le> 4" by simp
  finally have "1 + int (count_list (take k b0) 10) < 2 ^ (64 - 1)" by simp
  with * show ?thesis by auto
qed


section \<open>Quoted bytes\<close>

lemma pad_eq: "pad width buf = buf @ replicate (nat (width - 1)) (of_char CHR '' '')"
proof (induction width buf rule: pad.induct)
  case (1 width buf)
  show ?case
  proof (cases "0 < width - 1")
    case True
    then have "nat (width - 1) = Suc (nat (width - 1 - 1))" by simp
    with 1 True show ?thesis
      by (subst pad.simps) (simp add: replicate_app_Cons_same del: of_char_Char)
  next
    case False
    then show ?thesis by (subst pad.simps) simp
  qed
qed

lemma sprintc_cases:
  "sprintc ISPRINT width c =
    (if ISPRINT c then pad width [c]
     else if c < 32 then pad (width - 1) [of_char CHR ''^'', c + 64]
     else if c < 127 then pad width [c]
     else if c = 127 then pad (width - 1) [of_char CHR ''^'', of_char CHR ''?'']
     else if c - 128 < 32
       then pad (width - 3) [of_char CHR ''M'', of_char CHR ''-'', of_char CHR ''^'', c - 128 + 64]
     else if c - 128 = 127
       then pad (width - 3)
              [of_char CHR ''M'', of_char CHR ''-'', of_char CHR ''^'', of_char CHR ''?'']
     else pad (width - 2) [of_char CHR ''M'', of_char CHR ''-'', c - 128])"
proof (cases "128 \<le> c")
  case True
  then have "\<not> c < 32" "\<not> c < 127" "c \<noteq> 127"
    by (auto simp: word_less_nat_alt word_le_nat_alt)
  with True show ?thesis
    by (simp add: sprintc_def del: of_char_Char)
next
  case False
  then have c: "c < 128" by simp
  have "c < 127" if "c \<noteq> 127"
  proof -
    have "unat c \<noteq> 127"
    proof
      assume "unat c = 127"
      then have "unat c = unat (127 :: byte)" by simp
      then have "c = 127" by (simp only: word_unat_eq_iff [symmetric])
      with that show False by simp
    qed
    with c show ?thesis by (simp add: word_less_nat_alt)
  qed
  with False show ?thesis
    by (auto simp add: sprintc_def simp del: of_char_Char)
qed

lemma sprintc_width:
  "sprintc ISPRINT width c =
     sprintc ISPRINT 0 c @
       replicate (nat width - length (sprintc ISPRINT 0 c)) (of_char CHR '' '')"
proof -
  have "nat (width - 1) = nat width - Suc 0"
    "nat (width - 1 - 1) = nat width - Suc (Suc 0)"
    "nat (width - 2 - 1) = nat width - Suc (Suc (Suc 0))"
    "nat (width - 3 - 1) = nat width - Suc (Suc (Suc (Suc 0)))"
    by arith+
  then show ?thesis
    by (simp add: sprintc_cases pad_eq del: of_char_Char)
qed

lemma sprintc_meta:
  assumes "\<not> ISPRINT c" and "128 \<le> c"
  shows "sprintc ISPRINT width c =
           map of_char ''M-'' @ sprintc (\<lambda>c. False) (width - 2) (c - 128)"
proof -
  have "unat (c - 128) = unat c - 128"
    using assms(2) by (simp add: unat_sub word_le_nat_alt)
  then have "c - 128 < 128"
    using unat_byte_less [of c] by (simp add: word_less_nat_alt)
  then have "\<not> 128 \<le> c - 128" by simp
  with assms show ?thesis
    by (simp add: sprintc_def Let_def pad_eq)
qed


text \<open>
  Claim C7, against the claim as stated: in the C locale byte 200 is not a printing
  character, and \<open>sprintc\<close> renders it as \<open>M-H\<close>, not as \<open>M-^H\<close>: 200 - 128 is 72, the
  letter H, which is neither below 32 nor 127 and so gets no caret.
\<close>

theorem sprintc_200_counterexample:
  "\<not> ISPRINT_C 200 \<and> sprintc ISPRINT_C 0 200 = map of_char ''M-H'' \<and>
   sprintc ISPRINT_C 0 200 \<noteq> map of_char ''M-^H''"
  by (simp add: sprintc_def ISPRINT_C_def pad.simps)

text \<open>
  Claim C7, amended.  For a byte that \<open>ISPRINT\<close> rejects, \<open>sprintc\<close> writes a caret and the
  byte plus 64 when the byte is below 32 (byte 0 gives \<open>^@\<close>, byte 10 gives \<open>^J\<close>), \<open>^?\<close> for
  byte 127, and for a byte with the high bit set \<open>M-\<close> followed by the same rule applied to
  the byte minus 128, under which a byte from 32 to 126 stands for itself: byte 200 gives
  \<open>M-H\<close> and byte 136 gives \<open>M-^H\<close>.  A byte that \<open>ISPRINT\<close> accepts is written as it is.
  The result is padded on the right with spaces to the requested width.
\<close>

theorem sprintc_quoting:
  "(\<not> ISPRINT 0 \<longrightarrow> sprintc ISPRINT 0 0 = map of_char ''^@'') \<and>
   (\<not> ISPRINT 10 \<longrightarrow> sprintc ISPRINT 0 10 = map of_char ''^J'') \<and>
   (\<not> ISPRINT 127 \<longrightarrow> sprintc ISPRINT 0 127 = map of_char ''^?'') \<and>
   (\<not> ISPRINT 200 \<longrightarrow> sprintc ISPRINT 0 200 = map of_char ''M-H'') \<and>
   (\<not> ISPRINT 136 \<longrightarrow> sprintc ISPRINT 0 136 = map of_char ''M-^H'') \<and>
   (\<not> ISPRINT c \<and> c < 32 \<longrightarrow> sprintc ISPRINT 0 c = [of_char CHR ''^'', c + 64]) \<and>
   (\<not> ISPRINT c \<and> 32 \<le> c \<and> c < 127 \<longrightarrow> sprintc ISPRINT 0 c = [c]) \<and>
   (\<not> ISPRINT c \<and> 128 \<le> c \<longrightarrow>
      sprintc ISPRINT width c =
        map of_char ''M-'' @ sprintc (\<lambda>c. False) (width - 2) (c - 128)) \<and>
   (ISPRINT c \<longrightarrow> sprintc ISPRINT 0 c = [c]) \<and>
   sprintc ISPRINT width c =
     sprintc ISPRINT 0 c @
       replicate (nat width - length (sprintc ISPRINT 0 c)) (of_char CHR '' '')"
proof -
  have "\<not> ISPRINT c \<and> c < 32 \<longrightarrow> sprintc ISPRINT 0 c = [of_char CHR ''^'', c + 64]"
    by (simp add: sprintc_cases pad.simps)
  moreover have "\<not> ISPRINT c \<and> 32 \<le> c \<and> c < 127 \<longrightarrow> sprintc ISPRINT 0 c = [c]"
    by (auto simp: sprintc_cases pad.simps)
  moreover have "ISPRINT c \<longrightarrow> sprintc ISPRINT 0 c = [c]"
    by (simp add: sprintc_cases pad.simps)
  moreover have "\<not> ISPRINT c \<and> 128 \<le> c \<longrightarrow>
      sprintc ISPRINT width c =
        map of_char ''M-'' @ sprintc (\<lambda>c. False) (width - 2) (c - 128)"
    using sprintc_meta [of ISPRINT c width] by blast
  moreover have "(\<not> ISPRINT 0 \<longrightarrow> sprintc ISPRINT 0 0 = map of_char ''^@'') \<and>
   (\<not> ISPRINT 10 \<longrightarrow> sprintc ISPRINT 0 10 = map of_char ''^J'') \<and>
   (\<not> ISPRINT 127 \<longrightarrow> sprintc ISPRINT 0 127 = map of_char ''^?'') \<and>
   (\<not> ISPRINT 200 \<longrightarrow> sprintc ISPRINT 0 200 = map of_char ''M-H'') \<and>
   (\<not> ISPRINT 136 \<longrightarrow> sprintc ISPRINT 0 136 = map of_char ''M-^H'')"
    by (simp add: sprintc_cases pad.simps)
  ultimately show ?thesis
    using sprintc_width [of ISPRINT width c] by blast
qed

theorem sprintc_quoting_witness:
  "\<not> ISPRINT_C 0 \<and> sprintc ISPRINT_C 0 0 = map of_char ''^@'' \<and>
   \<not> ISPRINT_C 10 \<and> sprintc ISPRINT_C 0 10 = map of_char ''^J'' \<and>
   \<not> ISPRINT_C 127 \<and> sprintc ISPRINT_C 0 127 = map of_char ''^?'' \<and>
   \<not> ISPRINT_C 200 \<and> sprintc ISPRINT_C 4 200 = map of_char ''M-H '' \<and>
   \<not> ISPRINT_C 136 \<and> sprintc ISPRINT_C 0 136 = map of_char ''M-^H'' \<and>
   ISPRINT_C 65 \<and> sprintc ISPRINT_C 4 65 = map of_char ''A   ''"
proof -
  have p: "\<not> ISPRINT_C 0" "\<not> ISPRINT_C 10" "\<not> ISPRINT_C 127" "\<not> ISPRINT_C 200"
    "\<not> ISPRINT_C 136" "ISPRINT_C 65"
    by (simp_all add: ISPRINT_C_def)
  from sprintc_quoting [of ISPRINT_C 65 4] sprintc_quoting [of ISPRINT_C 200 4] p
  show ?thesis
    by (simp add: numeral_eq_Suc)
qed


section \<open>Common prefixes\<close>

text \<open>The files and buffers have the indices 0 and 1, which the simplifier is to keep.\<close>

declare One_nat_def [simp del]

lemma lcp_le: "lcp xs ys \<le> length xs" "lcp xs ys \<le> length ys"
  by (induction xs ys rule: lcp.induct) simp_all

lemma lcp_nth: "j < lcp xs ys \<Longrightarrow> xs ! j = ys ! j"
proof (induction xs ys arbitrary: j rule: lcp.induct)
  case (1 x xs y ys)
  then show ?case by (cases j) (auto split: if_splits)
qed simp_all

lemma lcp_neq:
  "lcp xs ys < length xs \<Longrightarrow> lcp xs ys < length ys \<Longrightarrow> xs ! lcp xs ys \<noteq> ys ! lcp xs ys"
  by (induction xs ys rule: lcp.induct) (auto split: if_splits)

lemma lcp_unique:
  assumes "k \<le> length xs" "k \<le> length ys" "\<forall>j<k. xs ! j = ys ! j"
    and "k < length xs \<and> k < length ys \<longrightarrow> xs ! k \<noteq> ys ! k"
  shows "lcp xs ys = k"
proof (cases "lcp xs ys" k rule: linorder_cases)
  case less
  with assms(1,2) have "lcp xs ys < length xs" "lcp xs ys < length ys" by simp_all
  then have "xs ! lcp xs ys \<noteq> ys ! lcp xs ys" by (rule lcp_neq)
  with less assms(3) show ?thesis by simp
next
  case equal
  then show ?thesis .
next
  case greater
  then have "xs ! k = ys ! k" by (rule lcp_nth)
  moreover from greater have "k < length xs" "k < length ys"
    using lcp_le [of xs ys] by simp_all
  ultimately show ?thesis using assms(4) by simp
qed

lemma lcp_take: "lcp (take n xs) (take n ys) = min n (lcp xs ys)"
proof (induction xs arbitrary: n ys)
  case Nil
  show ?case by simp
next
  case (Cons x xs)
  show ?case
  proof (cases ys)
    case Nil
    then show ?thesis by (cases n) simp_all
  next
    case c: (Cons y ys')
    with Cons.IH show ?thesis by (cases n) simp_all
  qed
qed

lemma lcp_drop: "n \<le> lcp xs ys \<Longrightarrow> lcp (drop n xs) (drop n ys) = lcp xs ys - n"
proof (induction xs ys arbitrary: n rule: lcp.induct)
  case (1 x xs y ys)
  then show ?case by (cases n) (simp_all split: if_splits)
qed simp_all

lemma lcp_take_eq: "take (lcp xs ys) xs = take (lcp xs ys) ys"
  by (induction xs ys rule: lcp.induct) simp_all

lemma lcp_same: "lcp xs xs = length xs"
  by (induction xs) simp_all

lemma lcp_prefix: "lcp xs (xs @ zs) = length xs"
  by (induction xs) simp_all

section \<open>Reading a block pair\<close>

lemma rest_after_read:
  "drop (pos f + length (take n (rest f))) (data f) = drop n (rest f)"
proof (cases "n \<le> length (rest f)")
  case True
  then show ?thesis by (simp add: rest_def add.commute min_def)
next
  case False
  then show ?thesis by (simp add: rest_def)
qed

lemma block_read_ok:
  assumes "\<not> read_error f"
  obtains f' where "block_read f n = (Some (take n (rest f)), f')"
    and "rest f' = drop n (rest f)" and "\<not> read_error f'"
    and "reads f' = reads f + 1" and "seekable f' = seekable f"
proof -
  let ?f' = "f\<lparr>reads := reads f + 1, pos := pos f + length (take n (rest f))\<rparr>"
  have "block_read f n = (Some (take n (rest f)), ?f')"
    using assms by (simp add: block_read_def Let_def)
  moreover have "rest ?f' = drop n (rest f)"
    using rest_after_read [of f n] by (simp add: rest_def)
  ultimately show ?thesis
    using assms by (intro that [of ?f']) simp_all
qed

lemma store_ok:
  assumes "length bytes \<le> length buf"
  obtains buf' where "store buf bytes = Some buf'" and "length buf' = length buf"
    and "\<forall>j<length bytes. buf' ! j = bytes ! j"
proof -
  have "\<forall>j<length bytes. (bytes @ drop (length bytes) buf) ! j = bytes ! j"
    by (simp add: nth_append)
  with assms show ?thesis
    by (intro that [of "bytes @ drop (length bytes) buf"]) (simp_all add: store_def)
qed

lemma read_blocks_ok:
  assumes rdy: "ready p g s"
  obtains s1 where
    "read_blocks g s =
       (Return (min (length (rest (file_desc s 0))) (buf_size g),
                min (length (rest (file_desc s 1))) (buf_size g)), s1)"
    and "rest (file_desc s1 0) = drop (buf_size g) (rest (file_desc s 0))"
    and "rest (file_desc s1 1) = drop (buf_size g) (rest (file_desc s 1))"
    and "ready p g s1" and "printed s1 = printed s"
    and "block_compare (sizeof_word p) (byte_order p) (buffer s1 0) (buffer s1 1) =
           Some (min (buf_size g) (lcp (rest (file_desc s 0)) (rest (file_desc s 1))))"
    and "\<forall>j < min (buf_size g) (min (length (rest (file_desc s 0))) (length (rest (file_desc s 1)))).
           buffer s1 0 ! j = rest (file_desc s 0) ! j \<and>
           buffer s1 1 ! j = rest (file_desc s 1) ! j"
proof -
  let ?B = "buf_size g" and ?W = "sizeof_word p"
  let ?xs = "rest (file_desc s 0)" and ?ys = "rest (file_desc s 1)"
  let ?blk0 = "take ?B ?xs" and ?blk1 = "take ?B ?ys"
  from rdy have W: "0 < ?W" and B: "0 < ?B"
    and c: "?B + ?W \<le> length (buffer s 0)" "?B + ?W \<le> length (buffer s 1)"
    and e: "\<not> read_error (file_desc s 0)" "\<not> read_error (file_desc s 1)"
    by (simp_all add: ready_def)
  obtain f0 where f0: "block_read (file_desc s 0) ?B = (Some ?blk0, f0)"
    "rest f0 = drop ?B ?xs" "\<not> read_error f0"
    using e(1) by (rule block_read_ok)
  obtain f1 where f1: "block_read (file_desc s 1) ?B = (Some ?blk1, f1)"
    "rest f1 = drop ?B ?ys" "\<not> read_error f1"
    using e(2) by (rule block_read_ok)
  have l: "length ?blk0 \<le> ?B" "length ?blk1 \<le> ?B" by simp_all
  from l(1) c(1) have "length ?blk0 \<le> length (buffer s 0)" by linarith
  then obtain buf0 where buf0: "store (buffer s 0) ?blk0 = Some buf0"
    "length buf0 = length (buffer s 0)" "\<forall>j<length ?blk0. buf0 ! j = ?blk0 ! j"
    by (rule store_ok)
  from l(2) c(2) have "length ?blk1 \<le> length (buffer s 1)" by linarith
  then obtain buf1 where buf1: "store (buffer s 1) ?blk1 = Some buf1"
    "length buf1 = length (buffer s 1)" "\<forall>j<length ?blk1. buf1 ! j = ?blk1 ! j"
    by (rule store_ok)
  have c': "?B + ?W \<le> length buf0" "?B + ?W \<le> length buf1"
    using c buf0(2) buf1(2) by simp_all
  obtain b0 b1 k where
    s: "insert_sentinels buf0 buf1 (length ?blk0) (length ?blk1) = Some (b0, b1)"
    and lb: "length b0 = length buf0" "length b1 = length buf1"
    and old: "\<forall>j<min (length ?blk0) (length ?blk1). b0 ! j = buf0 ! j \<and> b1 ! j = buf1 ! j"
    and bc: "block_compare ?W (byte_order p) b0 b1 = Some k"
    and k: "k \<le> min (length ?blk0) (length ?blk1)" "\<forall>j<k. b0 ! j = b1 ! j" "b0 ! k \<noteq> b1 ! k"
    using W l c' by (rule sentinel_block_compare)
  have blk: "b0 ! j = ?blk0 ! j" "b1 ! j = ?blk1 ! j"
    if "j < min (length ?blk0) (length ?blk1)" for j
  proof -
    from that have "j < length ?blk0" "j < length ?blk1" by simp_all
    with buf0(3) buf1(3) have "buf0 ! j = ?blk0 ! j" "buf1 ! j = ?blk1 ! j" by blast+
    with old that show "b0 ! j = ?blk0 ! j" "b1 ! j = ?blk1 ! j" by simp_all
  qed
  have data: "b0 ! j = ?xs ! j \<and> b1 ! j = ?ys ! j"
    if "j < min (length ?blk0) (length ?blk1)" for j
    using blk [OF that] that by simp
  have "lcp ?blk0 ?blk1 = k"
  proof (rule lcp_unique)
    show "k \<le> length ?blk0" "k \<le> length ?blk1" using k(1) by simp_all
    show "\<forall>j<k. ?blk0 ! j = ?blk1 ! j"
    proof (intro allI impI)
      fix j assume "j < k"
      with k(1) have j: "j < min (length ?blk0) (length ?blk1)" by linarith
      from \<open>j < k\<close> k(2) have "b0 ! j = b1 ! j" by blast
      then show "?blk0 ! j = ?blk1 ! j" by (simp only: blk [OF j])
    qed
    show "k < length ?blk0 \<and> k < length ?blk1 \<longrightarrow> ?blk0 ! k \<noteq> ?blk1 ! k"
    proof
      assume "k < length ?blk0 \<and> k < length ?blk1"
      then have j: "k < min (length ?blk0) (length ?blk1)" by simp
      from k(3) blk [OF j] show "?blk0 ! k \<noteq> ?blk1 ! k" by metis
    qed
  qed
  then have k_eq: "k = min ?B (lcp ?xs ?ys)"
    by (simp add: lcp_take)
  let ?s1 = "s\<lparr>file_desc := (file_desc s)(0 := f0, 1 := f1),
                 buffer := (buffer s)(0 := b0, 1 := b1)\<rparr>"
  have 1: "read_blocks g s = (Return (min (length ?xs) ?B, min (length ?ys) ?B), ?s1)"
    using s by (simp add: read_blocks_def f0(1) f1(1) buf0(1) buf1(1))
  have 2: "ready p g ?s1"
    using W B c' lb f0(3) f1(3) by (simp add: ready_def)
  have 3: "block_compare ?W (byte_order p) (buffer ?s1 0) (buffer ?s1 1) =
             Some (min ?B (lcp ?xs ?ys))"
    using bc k_eq by simp
  have 4: "\<forall>j < min ?B (min (length ?xs) (length ?ys)).
             buffer ?s1 0 ! j = ?xs ! j \<and> buffer ?s1 1 ! j = ?ys ! j"
    using data by simp
  show ?thesis
    by (rule that [OF 1 _ _ 2 _ 3 4]) (simp_all add: f0(2) f1(2))
qed


section \<open>One iteration of the read loop\<close>

lemma take_eq_of_nth:
  assumes "k \<le> length xs" "k \<le> length ys" "\<forall>j<k. xs ! j = ys ! j"
  shows "take k xs = take k ys"
  using assms by (simp add: list_eq_iff_nth_eq)

lemma block_step:
  assumes rdy: "ready p g s"
  obtains s1 where
    "read_blocks g s =
       (Return (min (length (rest (file_desc s 0))) (buf_size g),
                min (length (rest (file_desc s 1))) (buf_size g)), s1)"
    and "rest (file_desc s1 0) = drop (buf_size g) (rest (file_desc s 0))"
    and "rest (file_desc s1 1) = drop (buf_size g) (rest (file_desc s 1))"
    and "ready p g s1" and "printed s1 = printed s"
    and "compare_blocks p g s1 ln =
           Some (min (buf_size g) (lcp (rest (file_desc s 0)) (rest (file_desc s 1))),
                 if comparison_type g = type_first_diff
                 then off_t (off_t_bits p) (ln + int (count_list
                        (take (min (buf_size g) (lcp (rest (file_desc s 0)) (rest (file_desc s 1))))
                           (rest (file_desc s 0))) 10))
                 else ln)"
    and "\<forall>j < min (buf_size g) (min (length (rest (file_desc s 0))) (length (rest (file_desc s 1)))).
           buffer s1 0 ! j = rest (file_desc s 0) ! j \<and>
           buffer s1 1 ! j = rest (file_desc s 1) ! j"
    and "min (buf_size g) (min (length (rest (file_desc s 0))) (length (rest (file_desc s 1))))
           \<le> length (buffer s1 0)"
    and "min (buf_size g) (min (length (rest (file_desc s 0))) (length (rest (file_desc s 1))))
           \<le> length (buffer s1 1)"
proof -
  let ?B = "buf_size g"
  let ?xs = "rest (file_desc s 0)" and ?ys = "rest (file_desc s 1)"
  let ?d = "min ?B (lcp ?xs ?ys)" and ?m = "min ?B (min (length ?xs) (length ?ys))"
  obtain s1 where 1: "read_blocks g s = (Return (min (length ?xs) ?B, min (length ?ys) ?B), s1)"
    and 2: "rest (file_desc s1 0) = drop ?B ?xs" "rest (file_desc s1 1) = drop ?B ?ys"
    and 3: "ready p g s1" and 4: "printed s1 = printed s"
    and bc: "block_compare (sizeof_word p) (byte_order p) (buffer s1 0) (buffer s1 1) = Some ?d"
    and data: "\<forall>j < ?m. buffer s1 0 ! j = ?xs ! j \<and> buffer s1 1 ! j = ?ys ! j"
    using rdy by (rule read_blocks_ok)
  have dm: "?d \<le> ?m"
    using lcp_le [of ?xs ?ys] by (simp add: min.coboundedI2)
  from 3 have len: "?m \<le> length (buffer s1 0)" "?m \<le> length (buffer s1 1)"
    by (simp_all add: ready_def min.coboundedI1)
  have "take ?d (buffer s1 0) = take ?d ?xs"
  proof (rule take_eq_of_nth)
    show "?d \<le> length (buffer s1 0)" using dm len(1) by (rule order_trans)
    show "?d \<le> length ?xs" using lcp_le(1) [of ?xs ?ys] by (simp add: min.coboundedI2)
    show "\<forall>j<?d. buffer s1 0 ! j = ?xs ! j" using data dm by auto
  qed
  with bc have 5: "compare_blocks p g s1 ln =
      Some (?d, if comparison_type g = type_first_diff
                then off_t (off_t_bits p) (ln + int (count_list (take ?d ?xs) 10)) else ln)"
    by (simp add: compare_blocks_def block_compare_and_count_eq)
  show ?thesis
    by (rule that [OF 1 2 3 4 5 data len])
qed

lemma lcp_eq_iff: "xs = ys \<longleftrightarrow> lcp xs ys = length xs \<and> length xs = length ys"
proof
  assume "xs = ys"
  then show "lcp xs ys = length xs \<and> length xs = length ys" by (simp add: lcp_same)
next
  assume a: "lcp xs ys = length xs \<and> length xs = length ys"
  with lcp_take_eq [of xs ys] show "xs = ys" by simp
qed

text \<open>The arithmetic of one iteration, on the lengths and the common prefix.\<close>

lemma block_arith:
  fixes B d lx ly :: nat
  assumes "d \<le> min lx ly" "0 < B"
  shows "min B d < min (min lx B) (min ly B) \<longleftrightarrow> d < min lx ly \<and> d < B"
    and "\<not> (d < min lx ly \<and> d < B) \<Longrightarrow> min lx B \<noteq> min ly B \<Longrightarrow> d = min lx ly \<and> lx \<noteq> ly"
    and "\<not> (d < min lx ly \<and> d < B) \<Longrightarrow> min lx B = min ly B \<Longrightarrow> min lx B = B \<Longrightarrow>
           B \<le> d \<and> B \<le> lx \<and> B \<le> ly"
    and "\<not> (d < min lx ly \<and> d < B) \<Longrightarrow> min lx B = min ly B \<Longrightarrow> min lx B \<noteq> B \<Longrightarrow>
           d = lx \<and> lx = ly"
    and "min ly B < min lx B \<longleftrightarrow> ly < lx \<and> ly < B"
  using assms by (auto simp: min_def split: if_splits)

text \<open>The value of \<open>cmp_block\<close> once the reads and the comparison are known.\<close>

lemma cmp_block_no_diff:
  assumes "read_blocks g s = (Return (read0, read1), s1)"
    and "compare_blocks p g s1 ln = Some (fd, ln')"
    and "\<not> fd < min read0 read1"
  shows "cmp_block p g (ln, cn, ret, s) =
    (if read0 \<noteq> read1
     then Inl (Return 1,
               if comparison_type g \<noteq> type_status
               then s1\<lparr>printed := printed s1 @
                        [EOF_on (file_name g (if read1 < read0 then 1 else 0))]\<rparr>
               else s1)
     else if read0 = buf_size g then Inr (ln', off_t (off_t_bits p) (cn + int fd), ret, s1)
     else Inl (Return ret, s1))"
  using assms(3) by (simp add: cmp_block_def assms(1,2) Let_def)

lemma cmp_block_diff_status:
  assumes "read_blocks g s = (Return (read0, read1), s1)"
    and "compare_blocks p g s1 ln = Some (fd, ln')"
    and "fd < min read0 read1"
    and "comparison_type g = type_status"
  shows "cmp_block p g (ln, cn, ret, s) = Inl (Return 1, s1)"
  using assms(3,4)
  by (simp add: cmp_block_def assms(1,2) Let_def difference_found_def)

lemma cmp_block_diff_first:
  assumes "read_blocks g s = (Return (read0, read1), s1)"
    and "compare_blocks p g s1 ln = Some (fd, ln')"
    and "fd < min read0 read1"
    and "comparison_type g = type_first_diff"
    and "differ_report p g s1 fd (off_t (off_t_bits p) (cn + int fd)) ln' = Some e"
  shows "cmp_block p g (ln, cn, ret, s) = Inl (Return 1, s1\<lparr>printed := printed s1 @ [e]\<rparr>)"
  using assms(3,4,5)
  by (simp add: cmp_block_def assms(1,2) Let_def difference_found_def)

lemma cmp_block_diff_all:
  assumes "read_blocks g s = (Return (read0, read1), s1)"
    and "compare_blocks p g s1 ln = Some (fd, ln')"
    and "fd < min read0 read1"
    and "comparison_type g = type_all_diffs"
    and "all_diffs_loop p g (buffer s1 0) (buffer s1 1) (min read0 read1) fd
           (off_t (off_t_bits p) (cn + int fd)) (printed s1) = Some (cn', out)"
  shows "cmp_block p g (ln, cn, ret, s) =
    (if read0 \<noteq> read1
     then Inl (Return 1,
               s1\<lparr>printed := out @ [EOF_on (file_name g (if read1 < read0 then 1 else 0))]\<rparr>)
     else if read0 = buf_size g then Inr (ln', cn', 1, s1\<lparr>printed := out\<rparr>)
     else Inl (Return 1, s1\<lparr>printed := out\<rparr>))"
  using assms(3,4,5)
  by (simp add: cmp_block_def assms(1,2) Let_def difference_found_def)

lemma drop_block_eq_iff:
  assumes "B \<le> lcp xs ys"
  shows "drop B xs = drop B ys \<longleftrightarrow> xs = ys"
proof
  assume d: "drop B xs = drop B ys"
  have "take B (take (lcp xs ys) xs) = take B (take (lcp xs ys) ys)"
    using lcp_take_eq [of xs ys] by (rule arg_cong)
  with assms have "take B xs = take B ys" by simp
  with d show "xs = ys" by (metis append_take_drop_id)
qed simp


section \<open>The read loop in the mode \<open>type_status\<close>\<close>

lemma cmp_loop_status:
  assumes "comparison_type g = type_status"
  shows "ready p g s \<Longrightarrow>
    \<exists>s'. cmp_loop p g (ln, cn, ret, s) =
            Some (Return (if rest (file_desc s 0) = rest (file_desc s 1) then ret else 1), s') \<and>
          printed s' = printed s"
proof (induction "length (rest (file_desc s 0))" arbitrary: ln cn ret s rule: less_induct)
  case less
  let ?B = "buf_size g"
  let ?xs = "rest (file_desc s 0)" and ?ys = "rest (file_desc s 1)"
  let ?d = "lcp ?xs ?ys"
  let ?r0 = "min (length ?xs) ?B" and ?r1 = "min (length ?ys) ?B"
  from less.prems have B: "0 < ?B" by (simp add: ready_def)
  have dn: "?d \<le> min (length ?xs) (length ?ys)"
    using lcp_le [of ?xs ?ys] by simp
  note ar = block_arith [OF dn B]
  obtain s1 where rb: "read_blocks g s = (Return (?r0, ?r1), s1)"
    and r: "rest (file_desc s1 0) = drop ?B ?xs" "rest (file_desc s1 1) = drop ?B ?ys"
    and rdy: "ready p g s1" and pr: "printed s1 = printed s"
    and cb0: "compare_blocks p g s1 ln =
           Some (min ?B ?d,
                 if comparison_type g = type_first_diff
                 then off_t (off_t_bits p) (ln + int (count_list (take (min ?B ?d) ?xs) 10))
                 else ln)"
    and "\<forall>j < min ?B (min (length ?xs) (length ?ys)).
           buffer s1 0 ! j = ?xs ! j \<and> buffer s1 1 ! j = ?ys ! j"
    and "min ?B (min (length ?xs) (length ?ys)) \<le> length (buffer s1 0)"
    and "min ?B (min (length ?xs) (length ?ys)) \<le> length (buffer s1 1)"
    using less.prems by (rule block_step)
  from cb0 assms have cb: "compare_blocks p g s1 ln = Some (min ?B ?d, ln)" by simp
  show ?case
  proof (cases "?d < min (length ?xs) (length ?ys) \<and> ?d < ?B")
    case True
    with ar(1) have "min ?B ?d < min ?r0 ?r1" by blast
    then have "cmp_block p g (ln, cn, ret, s) = Inl (Return 1, s1)"
      using assms by (intro cmp_block_diff_status [OF rb cb])
    moreover from True have "?xs \<noteq> ?ys" by (auto simp: lcp_eq_iff)
    ultimately show ?thesis
      using pr by (subst cmp_loop.simps) simp
  next
    case nd: False
    with ar(1) have "\<not> min ?B ?d < min ?r0 ?r1" by blast
    note step = cmp_block_no_diff [OF rb cb this, of cn ret]
    show ?thesis
    proof (cases "?r0 = ?r1")
      case False
      with step assms have "cmp_block p g (ln, cn, ret, s) = Inl (Return 1, s1)"
        by simp
      moreover from ar(2) [OF nd False] have "?xs \<noteq> ?ys" by auto
      ultimately show ?thesis
        using pr by (subst cmp_loop.simps) simp
    next
      case same: True
      show ?thesis
      proof (cases "?r0 = ?B")
        case False
        with step same have "cmp_block p g (ln, cn, ret, s) = Inl (Return ret, s1)"
          by simp
        moreover from ar(4) [OF nd same False] have "?xs = ?ys" by (simp add: lcp_eq_iff)
        ultimately show ?thesis
          using pr by (subst cmp_loop.simps) simp
      next
        case True
        with step same have step': "cmp_block p g (ln, cn, ret, s) =
            Inr (ln, off_t (off_t_bits p) (cn + int (min ?B ?d)), ret, s1)"
          by simp
        from ar(3) [OF nd same True] have ge: "?B \<le> ?d" "?B \<le> length ?xs" "?B \<le> length ?ys"
          by simp_all
        have "length (rest (file_desc s1 0)) < length ?xs"
          using r(1) ge(2) B by simp
        from less.hyps [OF this rdy]
        obtain s' where l: "cmp_loop p g (ln, off_t (off_t_bits p) (cn + int (min ?B ?d)), ret, s1) =
            Some (Return (if rest (file_desc s1 0) = rest (file_desc s1 1) then ret else 1), s')"
          and p': "printed s' = printed s1" by blast
        have "rest (file_desc s1 0) = rest (file_desc s1 1) \<longleftrightarrow> ?xs = ?ys"
          unfolding r using ge(1) by (rule drop_block_eq_iff)
        with l p' pr have "cmp_loop p g (ln, off_t (off_t_bits p) (cn + int (min ?B ?d)), ret, s1) =
            Some (Return (if ?xs = ?ys then ret else 1), s') \<and> printed s' = printed s"
          by simp
        then show ?thesis
          by (subst cmp_loop.simps) (auto simp add: step')
      qed
    qed
  qed
qed


section \<open>The read loop in the mode \<open>type_first_diff\<close>\<close>

lemma first_diff_events_drop:
  assumes "B \<le> lcp xs ys"
  shows "first_diff_events p g (off_t (off_t_bits p) (cn + int B))
           (off_t (off_t_bits p) (ln + int (count_list (take B xs) 10)))
           (drop B xs) (drop B ys) = first_diff_events p g cn ln xs ys"
proof -
  let ?d = "lcp xs ys" and ?N = "off_t_bits p"
  have l: "?d \<le> length xs" "?d \<le> length ys" by (rule lcp_le)+
  have d': "lcp (drop B xs) (drop B ys) = ?d - B"
    using assms by (rule lcp_drop)
  have 1: "?d - B < min (length xs - B) (length ys - B) \<longleftrightarrow> ?d < min (length xs) (length ys)"
    using assms l by auto
  have e2: "cn + int B + int (?d - B) = cn + int ?d"
    using assms by simp
  have 2: "off_t ?N (off_t ?N (cn + int B) + int (?d - B)) = off_t ?N (cn + int ?d)"
    unfolding off_t_add_left e2 ..
  have "take (B + (?d - B)) xs = take B xs @ take (?d - B) (drop B xs)"
    by (rule take_add)
  with assms have e: "ln + int (count_list (take B xs) 10) +
      int (count_list (take (?d - B) (drop B xs)) 10) = ln + int (count_list (take ?d xs) 10)"
    by simp
  have 3: "off_t ?N (off_t ?N (ln + int (count_list (take B xs) 10)) +
      int (count_list (take (?d - B) (drop B xs)) 10)) =
      off_t ?N (ln + int (count_list (take ?d xs) 10))"
    unfolding off_t_add_left e ..
  have 4: "drop B xs ! (?d - B) = xs ! ?d" "drop B ys ! (?d - B) = ys ! ?d"
    using assms l by simp_all
  have 5: "length xs - B \<noteq> length ys - B \<longleftrightarrow> length xs \<noteq> length ys"
    "length ys - B < length xs - B \<longleftrightarrow> length ys < length xs"
    using assms l by auto
  show ?thesis
    unfolding first_diff_events_def d' length_drop 1 2 3 4 5 ..
qed

lemma cmp_loop_first_diff:
  assumes "comparison_type g = type_first_diff"
  shows "ready p g s \<Longrightarrow>
    \<exists>s'. cmp_loop p g (ln, cn, ret, s) =
            Some (Return (if rest (file_desc s 0) = rest (file_desc s 1) then ret else 1), s') \<and>
          printed s' =
            printed s @ first_diff_events p g cn ln (rest (file_desc s 0)) (rest (file_desc s 1))"
proof (induction "length (rest (file_desc s 0))" arbitrary: ln cn ret s rule: less_induct)
  case less
  let ?B = "buf_size g" and ?N = "off_t_bits p"
  let ?xs = "rest (file_desc s 0)" and ?ys = "rest (file_desc s 1)"
  let ?d = "lcp ?xs ?ys"
  let ?r0 = "min (length ?xs) ?B" and ?r1 = "min (length ?ys) ?B"
  let ?ln' = "off_t ?N (ln + int (count_list (take (min ?B ?d) ?xs) 10))"
  let ?cn' = "off_t ?N (cn + int (min ?B ?d))"
  from less.prems have B: "0 < ?B" by (simp add: ready_def)
  have dn: "?d \<le> min (length ?xs) (length ?ys)"
    using lcp_le [of ?xs ?ys] by simp
  note ar = block_arith [OF dn B]
  obtain s1 where rb: "read_blocks g s = (Return (?r0, ?r1), s1)"
    and r: "rest (file_desc s1 0) = drop ?B ?xs" "rest (file_desc s1 1) = drop ?B ?ys"
    and rdy: "ready p g s1" and pr: "printed s1 = printed s"
    and cb0: "compare_blocks p g s1 ln =
           Some (min ?B ?d,
                 if comparison_type g = type_first_diff
                 then off_t (off_t_bits p) (ln + int (count_list (take (min ?B ?d) ?xs) 10))
                 else ln)"
    and data: "\<forall>j < min ?B (min (length ?xs) (length ?ys)).
           buffer s1 0 ! j = ?xs ! j \<and> buffer s1 1 ! j = ?ys ! j"
    and len: "min ?B (min (length ?xs) (length ?ys)) \<le> length (buffer s1 0)"
      "min ?B (min (length ?xs) (length ?ys)) \<le> length (buffer s1 1)"
    using less.prems by (rule block_step)
  from cb0 assms have cb: "compare_blocks p g s1 ln = Some (min ?B ?d, ?ln')" by simp
  show ?case
  proof (cases "?d < min (length ?xs) (length ?ys) \<and> ?d < ?B")
    case True
    then have md: "min ?B ?d = ?d" by simp
    from True have dm: "?d < min ?B (min (length ?xs) (length ?ys))" by simp
    with len have "?d < length (buffer s1 0)" "?d < length (buffer s1 1)" by linarith+
    moreover from dm data have "buffer s1 0 ! ?d = ?xs ! ?d" "buffer s1 1 ! ?d = ?ys ! ?d"
      by blast+
    ultimately have ld: "load_byte (buffer s1 0) ?d = Some (?xs ! ?d)"
      "load_byte (buffer s1 1) ?d = Some (?ys ! ?d)"
      by (simp_all add: load_byte_def)
    have ev: "first_diff_events p g cn ln ?xs ?ys =
      [if \<not> opt_print_bytes g
       then Differ (file_name g 0) (file_name g 1) (off_t ?N (cn + int ?d))
              (off_t ?N (ln + int (count_list (take ?d ?xs) 10)))
       else Differ_bytes (file_name g 0) (file_name g 1) (off_t ?N (cn + int ?d))
              (off_t ?N (ln + int (count_list (take ?d ?xs) 10)))
              (?xs ! ?d) (sprintc (printable p) 0 (?xs ! ?d))
              (?ys ! ?d) (sprintc (printable p) 0 (?ys ! ?d))]"
      using True unfolding first_diff_events_def by (simp only: if_True)
    have "differ_report p g s1 (min ?B ?d) ?cn' ?ln' =
            Some (hd (first_diff_events p g cn ln ?xs ?ys))"
      unfolding ev md by (simp add: differ_report_def ld)
    moreover from True ar(1) have "min ?B ?d < min ?r0 ?r1" by blast
    ultimately have "cmp_block p g (ln, cn, ret, s) =
        Inl (Return 1, s1\<lparr>printed := printed s1 @ [hd (first_diff_events p g cn ln ?xs ?ys)]\<rparr>)"
      using assms by (intro cmp_block_diff_first [OF rb cb])
    moreover have "[hd (first_diff_events p g cn ln ?xs ?ys)] = first_diff_events p g cn ln ?xs ?ys"
      unfolding ev by simp
    moreover from True have "?xs \<noteq> ?ys" by (auto simp: lcp_eq_iff)
    ultimately show ?thesis
      using pr by (subst cmp_loop.simps) simp
  next
    case nd: False
    with ar(1) have "\<not> min ?B ?d < min ?r0 ?r1" by blast
    note step = cmp_block_no_diff [OF rb cb this, of cn ret]
    show ?thesis
    proof (cases "?r0 = ?r1")
      case False
      from ar(2) [OF nd False] have dl: "?d = min (length ?xs) (length ?ys)"
        "length ?xs \<noteq> length ?ys" by simp_all
      have "?r1 < ?r0 \<longleftrightarrow> length ?ys < length ?xs"
        using ar(5) False by auto
      with step False assms have "cmp_block p g (ln, cn, ret, s) =
          Inl (Return 1, s1\<lparr>printed := printed s1 @
            [EOF_on (file_name g (if length ?ys < length ?xs then 1 else 0))]\<rparr>)"
        by simp
      moreover from dl have "?xs \<noteq> ?ys" by auto
      moreover from dl have "first_diff_events p g cn ln ?xs ?ys =
          [EOF_on (file_name g (if length ?ys < length ?xs then 1 else 0))]"
        by (simp add: first_diff_events_def)
      ultimately show ?thesis
        using pr by (subst cmp_loop.simps) simp
    next
      case same: True
      show ?thesis
      proof (cases "?r0 = ?B")
        case False
        with step same have "cmp_block p g (ln, cn, ret, s) = Inl (Return ret, s1)"
          by simp
        moreover from ar(4) [OF nd same False] have e: "?d = length ?xs" "length ?xs = length ?ys"
          by simp_all
        then have "?xs = ?ys" by (simp add: lcp_eq_iff)
        moreover from e have "first_diff_events p g cn ln ?xs ?ys = []"
          by (simp add: first_diff_events_def)
        ultimately show ?thesis
          using pr by (subst cmp_loop.simps) simp
      next
        case True
        from ar(3) [OF nd same True] have ge: "?B \<le> ?d" "?B \<le> length ?xs" "?B \<le> length ?ys"
          by simp_all
        then have md: "min ?B ?d = ?B" by simp
        from step same True have step': "cmp_block p g (ln, cn, ret, s) =
            Inr (?ln', ?cn', ret, s1)"
          by simp
        have "length (rest (file_desc s1 0)) < length ?xs"
          using r(1) ge(2) B by simp
        from less.hyps [OF this rdy]
        obtain s' where l: "cmp_loop p g (?ln', ?cn', ret, s1) =
            Some (Return (if rest (file_desc s1 0) = rest (file_desc s1 1) then ret else 1), s')"
          and p': "printed s' = printed s1 @
            first_diff_events p g ?cn' ?ln'
              (rest (file_desc s1 0)) (rest (file_desc s1 1))" by blast
        have "rest (file_desc s1 0) = rest (file_desc s1 1) \<longleftrightarrow> ?xs = ?ys"
          unfolding r using ge(1) by (rule drop_block_eq_iff)
        moreover have "first_diff_events p g ?cn' ?ln'
              (rest (file_desc s1 0)) (rest (file_desc s1 1)) =
            first_diff_events p g cn ln ?xs ?ys"
          unfolding r md using ge(1) by (rule first_diff_events_drop)
        ultimately have "cmp_loop p g (?ln', ?cn', ret, s1) =
            Some (Return (if ?xs = ?ys then ret else 1), s') \<and>
            printed s' = printed s @ first_diff_events p g cn ln ?xs ?ys"
          using l p' pr by simp
        then show ?thesis
          by (subst cmp_loop.simps) (auto simp add: step')
      qed
    qed
  qed
qed


section \<open>The read loop in the mode \<open>type_all_diffs\<close>\<close>

lemma all_diffs_loop_eq:
  assumes "smaller \<le> length b0" "smaller \<le> length b1"
  shows "fd < smaller \<Longrightarrow>
    all_diffs_loop p g b0 b1 smaller fd (off_t (off_t_bits p) (base + int fd)) out =
      Some (off_t (off_t_bits p) (base + int smaller),
            out @ map (\<lambda>i. diff_line p g (off_t (off_t_bits p) (base + int i)) (b0 ! i) (b1 ! i))
                    (filter (\<lambda>i. b0 ! i \<noteq> b1 ! i) [fd..<smaller]))"
proof (induction "smaller - fd" arbitrary: fd out)
  case 0
  then show ?case by simp
next
  case (Suc n)
  let ?N = "off_t_bits p"
  let ?out' = "if b0 ! fd \<noteq> b1 ! fd
               then out @ [diff_line p g (off_t ?N (base + int fd)) (b0 ! fd) (b1 ! fd)] else out"
  have nx: "off_t ?N (off_t ?N (base + int fd) + 1) = off_t ?N (base + int (fd + 1))"
    by (simp add: add.assoc)
  from Suc.prems assms have ld: "load_byte b0 fd = Some (b0 ! fd)" "load_byte b1 fd = Some (b1 ! fd)"
    by (simp_all add: load_byte_def)
  have up: "[fd..<smaller] = fd # [fd + 1..<smaller]"
    using Suc.prems by (simp add: upt_conv_Cons One_nat_def)
  show ?case
  proof (cases "fd + 1 < smaller")
    case True
    have "n = smaller - (fd + 1)" using Suc.hyps(2) by simp
    from Suc.hyps(1) [OF this True, of ?out']
    have "all_diffs_loop p g b0 b1 smaller (fd + 1) (off_t ?N (base + int (fd + 1))) ?out' =
      Some (off_t ?N (base + int smaller),
            ?out' @ map (\<lambda>i. diff_line p g (off_t ?N (base + int i)) (b0 ! i) (b1 ! i))
                    (filter (\<lambda>i. b0 ! i \<noteq> b1 ! i) [fd + 1..<smaller]))" .
    with True show ?thesis
      by (subst all_diffs_loop.simps) (simp add: ld up Let_def nx del: off_t_add_left)
  next
    case False
    with Suc.prems have "smaller = fd + 1" by simp
    then show ?thesis
      by (subst all_diffs_loop.simps) (simp add: ld Let_def One_nat_def nx del: off_t_add_left)
  qed
qed

lemma no_diff_before_lcp:
  "m \<le> lcp xs ys \<Longrightarrow> filter (\<lambda>i. xs ! i \<noteq> ys ! i) [0..<m] = []"
  by (auto simp: filter_empty_conv lcp_nth)

lemma diffs_from_lcp:
  assumes "lcp xs ys \<le> m"
  shows "filter (\<lambda>i. xs ! i \<noteq> ys ! i) [0..<m] = filter (\<lambda>i. xs ! i \<noteq> ys ! i) [lcp xs ys..<m]"
proof -
  have "[0..<m] = [0..<lcp xs ys] @ [lcp xs ys..<m]"
    using assms by (metis le_add_diff_inverse upt_add_eq_append zero_le)
  then show ?thesis
    by (simp add: no_diff_before_lcp)
qed

lemma all_diffs_events_split:
  assumes "B \<le> length xs" "B \<le> length ys"
  shows "all_diffs_events p g cn xs ys =
    map (\<lambda>i. diff_line p g (off_t (off_t_bits p) (cn + int i)) (xs ! i) (ys ! i))
      (filter (\<lambda>i. xs ! i \<noteq> ys ! i) [0..<B]) @
    all_diffs_events p g (off_t (off_t_bits p) (cn + int B)) (drop B xs) (drop B ys)"
proof -
  let ?n = "min (length xs) (length ys)"
  let ?P = "\<lambda>i. xs ! i \<noteq> ys ! i"
  let ?f = "\<lambda>i. diff_line p g (off_t (off_t_bits p) (cn + int i)) (xs ! i) (ys ! i)"
  from assms have Bn: "B \<le> ?n" by simp
  then have "[0..<?n] = [0..<B] @ [B..<?n]"
    by (metis le_add_diff_inverse upt_add_eq_append zero_le)
  moreover have "[B..<?n] = map (\<lambda>i. i + B) [0..<?n - B]"
    using Bn by (simp add: map_add_upt)
  ultimately have "map ?f (filter ?P [0..<?n]) =
      map ?f (filter ?P [0..<B]) @
      map (?f \<circ> (\<lambda>i. i + B)) (filter (?P \<circ> (\<lambda>i. i + B)) [0..<?n - B])"
    by (simp add: filter_map)
  moreover have "?P \<circ> (\<lambda>i. i + B) = (\<lambda>i. drop B xs ! i \<noteq> drop B ys ! i)"
    using assms by (auto simp: fun_eq_iff ac_simps)
  moreover have "?f \<circ> (\<lambda>i. i + B) =
      (\<lambda>i. diff_line p g (off_t (off_t_bits p) (off_t (off_t_bits p) (cn + int B) + int i))
             (drop B xs ! i) (drop B ys ! i))"
    using assms by (auto simp: fun_eq_iff ac_simps)
  moreover have "?n - B = min (length (drop B xs)) (length (drop B ys))"
    by simp
  moreover have "length (drop B xs) \<noteq> length (drop B ys) \<longleftrightarrow> length xs \<noteq> length ys"
    "length (drop B ys) < length (drop B xs) \<longleftrightarrow> length ys < length xs"
    using assms by auto
  ultimately show ?thesis
    unfolding all_diffs_events_def by (simp only: append_assoc)
qed

lemma ready_printed [simp]: "ready p g (s\<lparr>printed := out\<rparr>) = ready p g s"
  by (simp add: ready_def)

lemma cmp_loop_all_diffs:
  assumes "comparison_type g = type_all_diffs"
  shows "ready p g s \<Longrightarrow>
    \<exists>s'. cmp_loop p g (ln, cn, ret, s) =
            Some (Return (if rest (file_desc s 0) = rest (file_desc s 1) then ret else 1), s') \<and>
          printed s' =
            printed s @ all_diffs_events p g cn (rest (file_desc s 0)) (rest (file_desc s 1))"
proof (induction "length (rest (file_desc s 0))" arbitrary: ln cn ret s rule: less_induct)
  case less
  let ?B = "buf_size g"
  let ?xs = "rest (file_desc s 0)" and ?ys = "rest (file_desc s 1)"
  let ?d = "lcp ?xs ?ys" and ?n = "min (length ?xs) (length ?ys)"
  let ?r0 = "min (length ?xs) ?B" and ?r1 = "min (length ?ys) ?B"
  let ?P = "\<lambda>i. ?xs ! i \<noteq> ?ys ! i"
  let ?N = "off_t_bits p"
  let ?f = "\<lambda>i. diff_line p g (off_t ?N (cn + int i)) (?xs ! i) (?ys ! i)"
  let ?eof = "[EOF_on (file_name g (if length ?ys < length ?xs then 1 else 0))]"
  from less.prems have B: "0 < ?B" by (simp add: ready_def)
  have dn: "?d \<le> ?n"
    using lcp_le [of ?xs ?ys] by simp
  note ar = block_arith [OF dn B]
  obtain s1 where rb: "read_blocks g s = (Return (?r0, ?r1), s1)"
    and r: "rest (file_desc s1 0) = drop ?B ?xs" "rest (file_desc s1 1) = drop ?B ?ys"
    and rdy: "ready p g s1" and pr: "printed s1 = printed s"
    and cb0: "compare_blocks p g s1 ln =
           Some (min ?B ?d,
                 if comparison_type g = type_first_diff
                 then off_t (off_t_bits p) (ln + int (count_list (take (min ?B ?d) ?xs) 10))
                 else ln)"
    and data: "\<forall>j < min ?B ?n. buffer s1 0 ! j = ?xs ! j \<and> buffer s1 1 ! j = ?ys ! j"
    and len: "min ?B ?n \<le> length (buffer s1 0)" "min ?B ?n \<le> length (buffer s1 1)"
    using less.prems by (rule block_step)
  from cb0 assms have cb: "compare_blocks p g s1 ln = Some (min ?B ?d, ln)" by simp
  have sm: "min ?r0 ?r1 = min ?B ?n" by (simp add: min_def)
  have ev: "all_diffs_events p g cn ?xs ?ys =
      map ?f (filter ?P [0..<?n]) @ (if length ?xs \<noteq> length ?ys then ?eof else [])"
    by (simp add: all_diffs_events_def)
  have eof_iff: "?r1 < ?r0 \<longleftrightarrow> length ?ys < length ?xs" if "?r0 \<noteq> ?r1"
    using ar(5) that by auto
  have next_block: ?case
    if step: "cmp_block p g (ln, cn, ret, s) =
        Inr (ln, off_t ?N (cn + int ?B), ret', s1\<lparr>printed := out\<rparr>)"
      and full: "?B \<le> length ?xs" "?B \<le> length ?ys"
      and out: "out = printed s @ map ?f (filter ?P [0..<?B])"
      and ret': "ret' = (if ?B \<le> ?d then ret else 1)"
    for ret' out
  proof -
    let ?s2 = "s1\<lparr>printed := out\<rparr>"
    have "length (rest (file_desc ?s2 0)) < length ?xs"
      using r(1) full(1) B by simp
    moreover have "ready p g ?s2" using rdy by simp
    ultimately obtain s' where l: "cmp_loop p g (ln, off_t ?N (cn + int ?B), ret', ?s2) =
        Some (Return (if rest (file_desc ?s2 0) = rest (file_desc ?s2 1) then ret' else 1), s')"
      and p': "printed s' = printed ?s2 @
        all_diffs_events p g (off_t ?N (cn + int ?B))
          (rest (file_desc ?s2 0)) (rest (file_desc ?s2 1))"
      using less.hyps [of ?s2 ln "off_t ?N (cn + int ?B)" ret'] by blast
    have "(if rest (file_desc ?s2 0) = rest (file_desc ?s2 1) then ret' else 1) =
        (if ?xs = ?ys then ret else 1)"
    proof (cases "?B \<le> ?d")
      case True
      then have "drop ?B ?xs = drop ?B ?ys \<longleftrightarrow> ?xs = ?ys" by (rule drop_block_eq_iff)
      with True ret' r show ?thesis by simp
    next
      case False
      with full have "?d < ?n" by simp
      then have "?xs \<noteq> ?ys" by (auto simp: lcp_eq_iff)
      with False ret' show ?thesis by simp
    qed
    moreover have "printed s' = printed s @ all_diffs_events p g cn ?xs ?ys"
      using p' r out all_diffs_events_split [OF full, of p g cn] by simp
    ultimately have "cmp_loop p g (ln, off_t ?N (cn + int ?B), ret', ?s2) =
        Some (Return (if ?xs = ?ys then ret else 1), s') \<and>
        printed s' = printed s @ all_diffs_events p g cn ?xs ?ys"
      using l by simp
    then show ?thesis
      by (subst cmp_loop.simps) (auto simp add: step)
  qed
  show ?case
  proof (cases "?d < ?n \<and> ?d < ?B")
    case True
    then have md: "min ?B ?d = ?d" by simp
    from True have ne: "?xs \<noteq> ?ys" by (auto simp: lcp_eq_iff)
    from True ar(1) have lt: "min ?B ?d < min ?r0 ?r1" by blast
    let ?out = "printed s @ map ?f (filter ?P [0..<min ?B ?n])"
    have "all_diffs_loop p g (buffer s1 0) (buffer s1 1) (min ?B ?n) ?d
          (off_t ?N (cn + int ?d)) (printed s1) =
        Some (off_t ?N (cn + int (min ?B ?n)),
              printed s1 @
              map (\<lambda>i. diff_line p g (off_t ?N (cn + int i)) (buffer s1 0 ! i) (buffer s1 1 ! i))
                (filter (\<lambda>i. buffer s1 0 ! i \<noteq> buffer s1 1 ! i) [?d..<min ?B ?n]))"
      using len True by (intro all_diffs_loop_eq) simp_all
    moreover have "filter (\<lambda>i. buffer s1 0 ! i \<noteq> buffer s1 1 ! i) [?d..<min ?B ?n] =
        filter ?P [?d..<min ?B ?n]"
      using data by (intro filter_cong) auto
    moreover have "map (\<lambda>i. diff_line p g (off_t ?N (cn + int i)) (buffer s1 0 ! i) (buffer s1 1 ! i))
          (filter ?P [?d..<min ?B ?n]) = map ?f (filter ?P [?d..<min ?B ?n])"
      using data by (intro map_cong) auto
    moreover have "filter ?P [0..<min ?B ?n] = filter ?P [?d..<min ?B ?n]"
      using True by (intro diffs_from_lcp) simp
    ultimately have loop: "all_diffs_loop p g (buffer s1 0) (buffer s1 1) (min ?r0 ?r1)
        (min ?B ?d) (off_t ?N (cn + int (min ?B ?d))) (printed s1) =
        Some (off_t ?N (cn + int (min ?B ?n)), ?out)"
      unfolding sm md pr by simp
    note step = cmp_block_diff_all [OF rb cb lt assms loop, of ret]
    show ?thesis
    proof (cases "?r0 = ?r1")
      case False
      then have n: "min ?B ?n = ?n" "length ?xs \<noteq> length ?ys"
        by (auto simp: min_def split: if_splits)
      from step False eof_iff have "cmp_block p g (ln, cn, ret, s) =
          Inl (Return 1, s1\<lparr>printed := ?out @ ?eof\<rparr>)"
        by simp
      moreover have "?out = printed s @ map ?f (filter ?P [0..<?n])"
        by (simp only: n(1))
      then have "?out @ ?eof = printed s @ all_diffs_events p g cn ?xs ?ys"
        unfolding ev using n(2) by simp
      ultimately show ?thesis
        using ne by (subst cmp_loop.simps) simp
    next
      case same: True
      show ?thesis
      proof (cases "?r0 = ?B")
        case False
        with same have n: "min ?B ?n = ?n" "length ?xs = length ?ys"
          by (auto simp: min_def split: if_splits)
        from step same False have "cmp_block p g (ln, cn, ret, s) =
            Inl (Return 1, s1\<lparr>printed := ?out\<rparr>)"
          by simp
        moreover have "?out = printed s @ map ?f (filter ?P [0..<?n])"
          by (simp only: n(1))
        then have "?out = printed s @ all_diffs_events p g cn ?xs ?ys"
          unfolding ev using n(2) by simp
        ultimately show ?thesis
          using ne by (subst cmp_loop.simps) simp
      next
        case full: True
        with same have ge: "?B \<le> length ?xs" "?B \<le> length ?ys"
          by (auto simp: min_def split: if_splits)
        then have n: "min ?B ?n = ?B" by simp
        from step same full have "cmp_block p g (ln, cn, ret, s) =
            Inr (ln, off_t ?N (cn + int ?B), 1, s1\<lparr>printed := ?out\<rparr>)"
          unfolding n by simp
        then show ?thesis
          using ge True by (intro next_block) (simp_all add: n)
      qed
    qed
  next
    case nd: False
    with ar(1) have "\<not> min ?B ?d < min ?r0 ?r1" by blast
    note step = cmp_block_no_diff [OF rb cb this, of cn ret]
    show ?thesis
    proof (cases "?r0 = ?r1")
      case False
      from ar(2) [OF nd False] have dl: "?d = ?n" "length ?xs \<noteq> length ?ys" by simp_all
      from step False assms eof_iff have "cmp_block p g (ln, cn, ret, s) =
          Inl (Return 1, s1\<lparr>printed := printed s1 @ ?eof\<rparr>)"
        by simp
      moreover from dl have "?xs \<noteq> ?ys" by auto
      moreover have "filter ?P [0..<?n] = []"
        using dl(1) by (intro no_diff_before_lcp) simp
      then have "all_diffs_events p g cn ?xs ?ys = ?eof"
        unfolding ev using dl(2) by simp
      ultimately show ?thesis
        using pr by (subst cmp_loop.simps) simp
    next
      case same: True
      show ?thesis
      proof (cases "?r0 = ?B")
        case False
        with step same have "cmp_block p g (ln, cn, ret, s) = Inl (Return ret, s1)"
          by simp
        moreover from ar(4) [OF nd same False] have e: "?d = length ?xs" "length ?xs = length ?ys"
          by simp_all
        then have "?xs = ?ys" by (simp add: lcp_eq_iff)
        moreover have "filter ?P [0..<?n] = []"
          using e by (intro no_diff_before_lcp) simp
        then have "all_diffs_events p g cn ?xs ?ys = []"
          unfolding ev using e(2) by simp
        ultimately show ?thesis
          using pr by (subst cmp_loop.simps) simp
      next
        case True
        from ar(3) [OF nd same True] have ge: "?B \<le> ?d" "?B \<le> length ?xs" "?B \<le> length ?ys"
          by simp_all
        then have md: "min ?B ?d = ?B" by simp
        have "filter ?P [0..<?B] = []"
          using ge(1) by (rule no_diff_before_lcp)
        moreover from step same True have "cmp_block p g (ln, cn, ret, s) =
            Inr (ln, off_t ?N (cn + int ?B), ret, s1\<lparr>printed := printed s\<rparr>)"
          unfolding md using pr by simp
        ultimately show ?thesis
          using ge by (intro next_block) simp_all
      qed
    qed
  qed
qed


section \<open>The initial skip\<close>

lemma read_fd_ok:
  assumes "\<not> read_error f"
  obtains f' where "read_fd f n = (Some (take n (rest f)), f')"
    and "rest f' = drop n (rest f)" and "read_error f' = read_error f"
proof -
  let ?f' = "f\<lparr>reads := reads f + 1, pos := pos f + length (take n (rest f))\<rparr>"
  have "read_fd f n = (Some (take n (rest f)), ?f')"
    using assms by (simp add: read_fd_def Let_def)
  moreover have "rest ?f' = drop n (rest f)"
    using rest_after_read [of f n] by (simp add: rest_def)
  ultimately show ?thesis
    by (intro that [of ?f']) simp_all
qed

text \<open>
  \<open>untouched s s1\<close>: from \<open>s\<close> to \<open>s1\<close> nothing was written, no read error appeared and the
  buffers kept their sizes.
\<close>

lemma discard_eval:
  assumes "read_fd (file_desc s f) (min ig (buf_size g)) = (Some bytes, fl)"
    and "store (buffer s 0) bytes = Some buf0"
  shows "discard g f ig s =
    (if bytes = [] \<or> ig - length bytes = 0
     then (Return (), s\<lparr>file_desc := (file_desc s)(f := fl), buffer := (buffer s)(0 := buf0)\<rparr>)
     else discard g f (ig - length bytes)
            (s\<lparr>file_desc := (file_desc s)(f := fl), buffer := (buffer s)(0 := buf0)\<rparr>))"
  by (subst discard.simps) (simp add: assms)

lemma discard_ok:
  assumes "0 < buf_size g"
  shows "\<not> read_error (file_desc s f) \<Longrightarrow> buf_size g \<le> length (buffer s 0) \<Longrightarrow>
    \<exists>s1. discard g f ig s = (Return (), s1) \<and>
      rest (file_desc s1 f) = drop ig (rest (file_desc s f)) \<and>
      (\<forall>f'. read_error (file_desc s1 f') = read_error (file_desc s f')) \<and>
      (\<forall>f'. f' \<noteq> f \<longrightarrow> file_desc s1 f' = file_desc s f') \<and>
      (\<forall>i. length (buffer s1 i) = length (buffer s i)) \<and>
      printed s1 = printed s \<and> positioned s1 = positioned s \<and> position s1 = position s"
proof (induction ig arbitrary: s rule: less_induct)
  case (less ig)
  let ?fl = "file_desc s f" and ?n = "min ig (buf_size g)"
  define bytes where "bytes = take ?n (rest ?fl)"
  obtain fl where rd: "read_fd ?fl ?n = (Some bytes, fl)"
    and rfl: "rest fl = drop ?n (rest ?fl)" and efl: "read_error fl = read_error ?fl"
    unfolding bytes_def using less.prems(1) by (rule read_fd_ok)
  have "length bytes \<le> length (buffer s 0)"
    using less.prems(2) by (simp add: bytes_def)
  then obtain buf0 where st: "store (buffer s 0) bytes = Some buf0"
    and lb: "length buf0 = length (buffer s 0)"
    by (rule store_ok)
  define s' where "s' = s\<lparr>file_desc := (file_desc s)(f := fl), buffer := (buffer s)(0 := buf0)\<rparr>"
  have keep: "rest (file_desc s' f) = drop ?n (rest ?fl)"
    "\<forall>f'. read_error (file_desc s' f') = read_error (file_desc s f')"
    "\<forall>f'. f' \<noteq> f \<longrightarrow> file_desc s' f' = file_desc s f'"
    "\<forall>i. length (buffer s' i) = length (buffer s i)"
    "printed s' = printed s" "positioned s' = positioned s" "position s' = position s"
    using rfl efl lb by (simp_all add: s'_def)
  note ev = discard_eval [OF rd st, folded s'_def]
  have lenb: "length bytes = min ?n (length (rest ?fl))"
    by (simp add: bytes_def min.commute)
  show ?case
  proof (cases "bytes = [] \<or> ig - length bytes = 0")
    case True
    with ev have "discard g f ig s = (Return (), s')" by simp
    moreover from True assms lenb have "drop ?n (rest ?fl) = drop ig (rest ?fl)"
      by (auto simp: min_def split: if_splits)
    ultimately show ?thesis using keep by auto
  next
    case False
    with ev have d: "discard g f ig s = discard g f (ig - length bytes) s'" by simp
    from False have lt: "ig - length bytes < ig" by auto
    have "\<not> read_error (file_desc s' f)" "buf_size g \<le> length (buffer s' 0)"
      using less.prems keep(2,4) by simp_all
    from less.IH [OF lt this]
    obtain s1 where s1: "discard g f (ig - length bytes) s' = (Return (), s1)"
      "rest (file_desc s1 f) = drop (ig - length bytes) (rest (file_desc s' f))"
      "\<forall>f'. read_error (file_desc s1 f') = read_error (file_desc s' f')"
      "\<forall>f'. f' \<noteq> f \<longrightarrow> file_desc s1 f' = file_desc s' f'"
      "\<forall>i. length (buffer s1 i) = length (buffer s' i)"
      "printed s1 = printed s'" "positioned s1 = positioned s'" "position s1 = position s'"
      by blast
    from lenb have "drop (ig - length bytes) (drop ?n (rest ?fl)) = drop ig (rest ?fl)"
      by (auto simp: min_def split: if_splits)
    with s1(2) keep(1) have "rest (file_desc s1 f) = drop ig (rest ?fl)" by simp
    moreover from s1(3) keep(2) have "\<forall>f'. read_error (file_desc s1 f') = read_error (file_desc s f')"
      by simp
    moreover from s1(4) keep(3) have "\<forall>f'. f' \<noteq> f \<longrightarrow> file_desc s1 f' = file_desc s f'"
      by simp
    moreover from s1(5) keep(4) have "\<forall>i. length (buffer s1 i) = length (buffer s i)"
      by simp
    ultimately show ?thesis
      using d s1(1,6,7,8) keep(5,6,7) by simp
  qed
qed

lemma skip_file_ok:
  assumes "0 < buf_size g" "\<not> read_error (file_desc s f)" "buf_size g \<le> length (buffer s 0)"
  shows "\<exists>s1. skip_file p g f s = (Return (), s1) \<and>
      rest (file_desc s1 f) =
        (if positioned s f \<and> position s f \<noteq> - 1 then rest (file_desc s f)
         else drop (ignore_initial g) (rest (file_desc s f))) \<and>
      (\<forall>f'. read_error (file_desc s1 f') = read_error (file_desc s f')) \<and>
      (\<forall>f'. f' \<noteq> f \<longrightarrow> file_desc s1 f' = file_desc s f' \<and>
                        positioned s1 f' = positioned s f' \<and> position s1 f' = position s f') \<and>
      (\<forall>i. length (buffer s1 i) = length (buffer s i)) \<and>
      printed s1 = printed s"
proof -
  obtain q s' where fp: "file_position p g f s = (q, s')" by (cases "file_position p g f s")
  show ?thesis
  proof (cases "positioned s f")
    case True
    with fp have s': "s' = s" "q = position s f" by (auto simp: file_position_def)
    show ?thesis
    proof (cases "q = - 1")
      case True
      with discard_ok [OF assms(1,2,3), of "ignore_initial g"] fp s' \<open>positioned s f\<close>
      show ?thesis by (auto simp: skip_file_def)
    next
      case False
      with fp s' \<open>positioned s f\<close> show ?thesis by (simp add: skip_file_def)
    qed
  next
    case np: False
    show ?thesis
    proof (cases "seekable (file_desc s f) \<and>
        int (pos (file_desc s f) + ignore_initial g) < 2 ^ (off_t_bits p - 1)")
      case True
      with np fp have "q \<noteq> - 1"
        and "s' = s\<lparr>positioned := (positioned s)(f := True), position := (position s)(f := q),
                     file_desc := (file_desc s)(f := (file_desc s f)
                       \<lparr>pos := pos (file_desc s f) + ignore_initial g\<rparr>)\<rparr>"
        by (auto simp: file_position_def lseek_cur_def)
      with fp np show ?thesis
        by (simp add: skip_file_def rest_def add.commute)
    next
      case False
      with np fp have q: "q = - 1"
        and s': "s' = s\<lparr>positioned := (positioned s)(f := True), position := (position s)(f := q),
                     file_desc := (file_desc s)(f := file_desc s f)\<rparr>"
        by (auto simp: file_position_def lseek_cur_def)
      from s' assms have "\<not> read_error (file_desc s' f)" "buf_size g \<le> length (buffer s' 0)"
        by simp_all
      from discard_ok [OF assms(1) this, of "ignore_initial g"] fp q s' np
      show ?thesis by (auto simp: skip_file_def)
    qed
  qed
qed

lemma skip_initial_ok:
  assumes "ready p g s"
  obtains s1 where "skip_initial p g s = (Return (), s1)" and "ready p g s1"
    and "printed s1 = printed s"
    and "\<And>f. f < 2 \<Longrightarrow> rest (file_desc s1 f) =
        (if ignore_initial g = 0 \<or> positioned s f \<and> position s f \<noteq> - 1
         then rest (file_desc s f)
         else drop (ignore_initial g) (rest (file_desc s f)))"
proof (cases "ignore_initial g = 0")
  case True
  with assms show ?thesis
    by (intro that [of s]) (simp_all add: skip_initial_def)
next
  case False
  from assms have B: "0 < buf_size g"
    and e: "\<not> read_error (file_desc s 0)" "\<not> read_error (file_desc s 1)"
    and c: "buf_size g \<le> length (buffer s 0)"
    by (simp_all add: ready_def)
  from skip_file_ok [OF B e(1) c, of p]
  obtain s0 where s0: "skip_file p g 0 s = (Return (), s0)"
    "rest (file_desc s0 0) =
        (if positioned s 0 \<and> position s 0 \<noteq> - 1 then rest (file_desc s 0)
         else drop (ignore_initial g) (rest (file_desc s 0)))"
    "\<forall>f'. read_error (file_desc s0 f') = read_error (file_desc s f')"
    "\<forall>f'. f' \<noteq> 0 \<longrightarrow> file_desc s0 f' = file_desc s f' \<and>
                        positioned s0 f' = positioned s f' \<and> position s0 f' = position s f'"
    "\<forall>i. length (buffer s0 i) = length (buffer s i)"
    "printed s0 = printed s"
    by blast
  from s0(3,5) e(2) c have "\<not> read_error (file_desc s0 1)" "buf_size g \<le> length (buffer s0 0)"
    by simp_all
  from skip_file_ok [OF B this, of p]
  obtain s1 where s1: "skip_file p g 1 s0 = (Return (), s1)"
    "rest (file_desc s1 1) =
        (if positioned s0 1 \<and> position s0 1 \<noteq> - 1 then rest (file_desc s0 1)
         else drop (ignore_initial g) (rest (file_desc s0 1)))"
    "\<forall>f'. read_error (file_desc s1 f') = read_error (file_desc s0 f')"
    "\<forall>f'. f' \<noteq> 1 \<longrightarrow> file_desc s1 f' = file_desc s0 f' \<and>
                        positioned s1 f' = positioned s0 f' \<and> position s1 f' = position s0 f'"
    "\<forall>i. length (buffer s1 i) = length (buffer s0 i)"
    "printed s1 = printed s0"
    by blast
  have 1: "skip_initial p g s = (Return (), s1)"
    using False s0(1) s1(1) by (simp add: skip_initial_def)
  have 2: "ready p g s1"
    using assms s0(3,5) s1(3,5) by (simp add: ready_def)
  have 3: "printed s1 = printed s"
    using s0(6) s1(6) by simp
  have 4: "rest (file_desc s1 f) =
        (if ignore_initial g = 0 \<or> positioned s f \<and> position s f \<noteq> - 1
         then rest (file_desc s f)
         else drop (ignore_initial g) (rest (file_desc s f)))" if "f < 2" for f
  proof -
    from that have "f = 0 \<or> f = 1" by auto
    then show ?thesis
    proof
      assume "f = 0"
      with s1(4) s0(2) False show ?thesis by simp
    next
      assume "f = 1"
      with s1(2) s0(4) False show ?thesis by simp
    qed
  qed
  show ?thesis by (rule that [OF 1 2 3 4])
qed

lemma ready_of_allocated:
  assumes "0 < sizeof_word p" "0 < buf_size g"
    and "length (buffer s 0) = sizeof_word p * words_per_buffer (sizeof_word p) (buf_size g)"
    and "length (buffer s 1) = sizeof_word p * words_per_buffer (sizeof_word p) (buf_size g)"
    and "\<not> read_error (file_desc s 0)" "\<not> read_error (file_desc s 1)"
  shows "ready p g s"
  using assms words_per_buffer_room [of "sizeof_word p" "buf_size g"]
  by (simp add: ready_def)

lemma first_diff_events_wrap [simp]:
  "first_diff_events p g (off_t (off_t_bits p) cn) ln xs ys = first_diff_events p g cn ln xs ys"
  by (simp add: first_diff_events_def)

lemma all_diffs_events_wrap [simp]:
  "all_diffs_events p g (off_t (off_t_bits p) cn) xs ys = all_diffs_events p g cn xs ys"
  by (simp add: all_diffs_events_def)

text \<open>What \<open>cmp\<close> returns and writes, for each mode, in terms of the bytes left after the skip.\<close>

lemma cmp_result:
  assumes "ready p g s"
    and "xs = rest (file_desc (snd (skip_initial p g s)) 0)"
    and "ys = rest (file_desc (snd (skip_initial p g s)) 1)"
  shows "\<exists>s'. cmp p g s = Some (Return (if xs = ys then 0 else 1), s') \<and>
    printed s' = printed s @
      (case comparison_type g of
         type_first_diff \<Rightarrow> first_diff_events p g (int (ignore_initial g) + 1) 1 xs ys
       | type_all_diffs \<Rightarrow> all_diffs_events p g (int (ignore_initial g) + 1) xs ys
       | type_status \<Rightarrow> [])"
proof -
  let ?cn = "off_t (off_t_bits p) (int (ignore_initial g) + 1)"
  obtain s1 where sk: "skip_initial p g s = (Return (), s1)" and rdy: "ready p g s1"
    and pr: "printed s1 = printed s"
    using assms(1) by (rule skip_initial_ok)
  from sk assms(2,3) have xy: "xs = rest (file_desc s1 0)" "ys = rest (file_desc s1 1)"
    by simp_all
  have c: "cmp p g s = cmp_loop p g (1, ?cn, 0, s1)"
    by (simp add: cmp_def sk)
  show ?thesis
  proof (cases "comparison_type g")
    case type_first_diff
    from cmp_loop_first_diff [OF this rdy, of 1 ?cn 0]
    show ?thesis unfolding c xy pr type_first_diff by simp
  next
    case type_all_diffs
    from cmp_loop_all_diffs [OF this rdy, of 1 ?cn 0]
    show ?thesis unfolding c xy pr type_all_diffs by simp
  next
    case type_status
    from cmp_loop_status [OF this rdy, of 1 ?cn 0]
    show ?thesis unfolding c xy pr type_status by simp
  qed
qed


lemma skip_initial_rest:
  assumes "ready p g s" and "f < 2"
  shows "rest (file_desc (snd (skip_initial p g s)) f) =
    (if ignore_initial g = 0 \<or> positioned s f \<and> position s f \<noteq> - 1
     then rest (file_desc s f)
     else drop (ignore_initial g) (rest (file_desc s f)))"
  using assms(1)
proof (rule skip_initial_ok)
  fix s1
  assume a: "skip_initial p g s = (Return (), s1)"
    and b: "\<And>f. f < 2 \<Longrightarrow> rest (file_desc s1 f) =
        (if ignore_initial g = 0 \<or> positioned s f \<and> position s f \<noteq> - 1
         then rest (file_desc s f)
         else drop (ignore_initial g) (rest (file_desc s f)))"
  from b [OF assms(2)] a show ?thesis by simp
qed

lemma ex_ready: "ready ex_platform (ex_globals t) (ex_state bs0 bs1)"
  by (simp add: ready_def ex_platform_def ex_globals_def ex_state_def ex_stream_def)

lemma ex_rest:
  "rest (file_desc (snd (skip_initial ex_platform (ex_globals t) (ex_state bs0 bs1))) 0) = drop 1 bs0"
  "rest (file_desc (snd (skip_initial ex_platform (ex_globals t) (ex_state bs0 bs1))) 1) = drop 1 bs1"
  by (simp_all add: skip_initial_rest [OF ex_ready])
     (simp_all add: ex_globals_def ex_state_def ex_stream_def rest_def)

lemma ex_facts:
  "0 < sizeof_word ex_platform" "0 < buf_size (ex_globals t)"
  "length (buffer (ex_state bs0 bs1) 0) =
     sizeof_word ex_platform * words_per_buffer (sizeof_word ex_platform) (buf_size (ex_globals t))"
  "length (buffer (ex_state bs0 bs1) 1) =
     sizeof_word ex_platform * words_per_buffer (sizeof_word ex_platform) (buf_size (ex_globals t))"
  "\<not> read_error (file_desc (ex_state bs0 bs1) 0)"
  "\<not> read_error (file_desc (ex_state bs0 bs1) 1)"
  "comparison_type (ex_globals t) = t"
  by (simp_all add: ex_platform_def ex_globals_def ex_state_def ex_stream_def words_per_buffer_def)

lemma ex_inputs:
  "drop 1 ex_file0 = [97, 10, 98, 99]" "drop 1 ex_file1 = [97, 10, 98, 100]"
  "drop 1 ex_file2 = [97, 10, 98, 99, 100]" "drop 1 ex_file3 = [98, 10, 98, 100, 101]"
  by (simp_all add: ex_file0_def ex_file1_def ex_file2_def ex_file3_def One_nat_def)

lemma first_diff_events_same [simp]: "first_diff_events p g cn ln xs xs = []"
  by (simp add: first_diff_events_def lcp_same)

lemma all_diffs_events_same [simp]: "all_diffs_events p g cn xs xs = []"
  by (simp add: all_diffs_events_def)

lemma first_diff_events_prefix:
  "zs \<noteq> [] \<Longrightarrow> first_diff_events p g cn ln xs (xs @ zs) = [EOF_on (file_name g 0)]"
  by (simp add: first_diff_events_def lcp_prefix)

lemma all_diffs_events_prefix:
  assumes "zs \<noteq> []"
  shows "all_diffs_events p g cn xs (xs @ zs) = [EOF_on (file_name g 0)]"
proof -
  have "filter (\<lambda>i. xs ! i \<noteq> (xs @ zs) ! i) [0..<length xs] = []"
    by (intro no_diff_before_lcp) (simp add: lcp_prefix)
  with assms show ?thesis
    by (simp add: all_diffs_events_def)
qed


section \<open>The claims about \<open>cmp\<close>\<close>

text \<open>
  In the theorems about \<open>cmp\<close>, the words are not empty, the blocks are not empty, the two
  buffers have the size that \<open>main\<close> allocates, and no file ends in a read error.  The
  inputs \<open>xs\<close> and \<open>ys\<close> are the bytes that are left to read from the two files after the
  initial skip of \<open>cmp\<close>; by \<open>skip_initial_rest\<close>, for a file that \<open>file_position\<close> has not
  yet positioned these are the bytes after the first \<open>ignore_initial\<close> bytes from the
  current offset.
\<close>

text \<open>
  Claim C1.  In the mode \<open>type_first_diff\<close>, when the inputs first differ at the position \<open>k\<close>
  (counted from 0), \<open>cmp\<close> returns 1 and prints one report: the character number is
  \<open>k + ignore_initial + 1\<close>, and the line number is 1 plus the number of newline bytes among
  the \<open>k\<close> bytes before the difference.  The position \<open>k\<close> is any position, in the first
  block or in a later one.  The character number is taken to be a value of \<^verbatim>\<open>off_t\<close>.
\<close>

theorem cmp_first_difference_report:
  assumes "comparison_type g = type_first_diff"
    and "0 < sizeof_word p" and "0 < buf_size g"
    and "length (buffer s 0) = sizeof_word p * words_per_buffer (sizeof_word p) (buf_size g)"
    and "length (buffer s 1) = sizeof_word p * words_per_buffer (sizeof_word p) (buf_size g)"
    and "\<not> read_error (file_desc s 0)" and "\<not> read_error (file_desc s 1)"
    and "xs = rest (file_desc (snd (skip_initial p g s)) 0)"
    and "ys = rest (file_desc (snd (skip_initial p g s)) 1)"
    and "k < length xs" and "k < length ys" and "take k xs = take k ys" and "xs ! k \<noteq> ys ! k"
    and "int k + int (ignore_initial g) + 1 < 2 ^ (off_t_bits p - 1)"
  shows "\<exists>s'. cmp p g s = Some (Return 1, s') \<and>
     printed s' = printed s @
       [if \<not> opt_print_bytes g
        then Differ (file_name g 0) (file_name g 1)
               (int k + int (ignore_initial g) + 1) (1 + int (count_list (take k xs) 10))
        else Differ_bytes (file_name g 0) (file_name g 1)
               (int k + int (ignore_initial g) + 1) (1 + int (count_list (take k xs) 10))
               (xs ! k) (sprintc (printable p) 0 (xs ! k))
               (ys ! k) (sprintc (printable p) 0 (ys ! k))]"
proof -
  let ?N = "off_t_bits p"
  have rdy: "ready p g s"
    using assms(2-7) by (rule ready_of_allocated)
  have eq: "\<forall>j<k. xs ! j = ys ! j"
  proof (intro allI impI)
    fix j assume j: "j < k"
    then have "xs ! j = take k xs ! j" "ys ! j = take k ys ! j" by simp_all
    with assms(12) show "xs ! j = ys ! j" by simp
  qed
  have d: "lcp xs ys = k"
    using assms(10,11,13) eq by (intro lcp_unique) simp_all
  have ne: "xs \<noteq> ys" using assms(10,13) by auto
  have c1: "off_t ?N (int (ignore_initial g) + 1 + int k) = int k + int (ignore_initial g) + 1"
    using assms(14) by (intro off_t_in_range [THEN trans]) simp_all
  have "count_list (take k xs) 10 \<le> length (take k xs)" by (rule count_le_length)
  then have "int (count_list (take k xs) 10) \<le> int k" by simp
  with assms(14) have c2: "off_t ?N (1 + int (count_list (take k xs) 10)) =
      1 + int (count_list (take k xs) 10)"
    by (intro off_t_in_range) simp_all
  have "first_diff_events p g (int (ignore_initial g) + 1) 1 xs ys =
       [if \<not> opt_print_bytes g
        then Differ (file_name g 0) (file_name g 1)
               (int k + int (ignore_initial g) + 1) (1 + int (count_list (take k xs) 10))
        else Differ_bytes (file_name g 0) (file_name g 1)
               (int k + int (ignore_initial g) + 1) (1 + int (count_list (take k xs) 10))
               (xs ! k) (sprintc (printable p) 0 (xs ! k))
               (ys ! k) (sprintc (printable p) 0 (ys ! k))]"
    unfolding first_diff_events_def d c1 c2 using assms(10,11) by simp
  with cmp_result [OF rdy assms(8,9)] ne assms(1) show ?thesis by simp
qed

theorem cmp_first_difference_report_witness:
  "\<exists>s'. cmp ex_platform (ex_globals type_first_diff) (ex_state ex_file0 ex_file1) =
          Some (Return 1, s') \<and>
        printed s' = [Differ ''a'' ''b'' 5 2]"
proof -
  let ?g = "ex_globals type_first_diff" and ?s = "ex_state ex_file0 ex_file1"
  let ?xs = "[97, 10, 98, 99] :: byte list" and ?ys = "[97, 10, 98, 100] :: byte list"
  have "\<exists>s'. cmp ex_platform ?g ?s = Some (Return 1, s') \<and>
        printed s' = printed ?s @
          [if \<not> opt_print_bytes ?g
           then Differ (file_name ?g 0) (file_name ?g 1)
                  (int 3 + int (ignore_initial ?g) + 1) (1 + int (count_list (take 3 ?xs) 10))
           else Differ_bytes (file_name ?g 0) (file_name ?g 1)
                  (int 3 + int (ignore_initial ?g) + 1) (1 + int (count_list (take 3 ?xs) 10))
                  (?xs ! 3) (sprintc (printable ex_platform) 0 (?xs ! 3))
                  (?ys ! 3) (sprintc (printable ex_platform) 0 (?ys ! 3))]"
  proof (rule cmp_first_difference_report)
    show "?xs = rest (file_desc (snd (skip_initial ex_platform ?g ?s)) 0)"
      by (simp only: ex_rest ex_inputs)
    show "?ys = rest (file_desc (snd (skip_initial ex_platform ?g ?s)) 1)"
      by (simp only: ex_rest ex_inputs)
    show "int 3 + int (ignore_initial ?g) + 1 < 2 ^ (off_t_bits ex_platform - 1)"
      by (simp add: ex_globals_def ex_platform_def)
  qed (simp_all add: ex_facts)
  then show ?thesis
    by (simp add: ex_globals_def ex_state_def)
qed


text \<open>
  Claim C4.  When the two inputs are the same sequence of bytes, \<open>cmp\<close> returns 0, the
  value for identical files, and prints nothing; with this result the end of \<open>main\<close> exits
  with status 0, unless closing one of the files fails.  The theorem has no hypothesis on
  \<open>comparison_type\<close>: it holds in each of the three modes.
\<close>

theorem cmp_identical:
  assumes "0 < sizeof_word p" and "0 < buf_size g"
    and "length (buffer s 0) = sizeof_word p * words_per_buffer (sizeof_word p) (buf_size g)"
    and "length (buffer s 1) = sizeof_word p * words_per_buffer (sizeof_word p) (buf_size g)"
    and "\<not> read_error (file_desc s 0)" and "\<not> read_error (file_desc s 1)"
    and "rest (file_desc (snd (skip_initial p g s)) 0) =
         rest (file_desc (snd (skip_initial p g s)) 1)"
  shows "\<exists>s'. cmp p g s = Some (Return 0, s') \<and> printed s' = printed s \<and>
           fst (finish e g 0 s') = (if close_fails e 0 \<or> close_fails e 1 then Exit 2 else Exit 0)"
proof -
  have rdy: "ready p g s"
    using assms(1-6) by (rule ready_of_allocated)
  from cmp_result [OF rdy refl refl] assms(7) show ?thesis
    by (cases "comparison_type g") (simp_all add: finish_def)
qed

theorem cmp_identical_witness:
  "(\<exists>s'. cmp ex_platform (ex_globals type_first_diff) (ex_state ex_file0 ex_file0) =
           Some (Return 0, s') \<and> printed s' = [] \<and>
         fst (finish ex_env (ex_globals type_first_diff) 0 s') = Exit 0) \<and>
   (\<exists>s'. cmp ex_platform (ex_globals type_all_diffs) (ex_state ex_file0 ex_file0) =
           Some (Return 0, s') \<and> printed s' = [] \<and>
         fst (finish ex_env (ex_globals type_all_diffs) 0 s') = Exit 0) \<and>
   (\<exists>s'. cmp ex_platform (ex_globals type_status) (ex_state ex_file0 ex_file0) =
           Some (Return 0, s') \<and> printed s' = [] \<and>
         fst (finish ex_env (ex_globals type_status) 0 s') = Exit 0)"
proof -
  have "\<exists>s'. cmp ex_platform (ex_globals t) (ex_state ex_file0 ex_file0) = Some (Return 0, s') \<and>
      printed s' = printed (ex_state ex_file0 ex_file0) \<and>
      fst (finish ex_env (ex_globals t) 0 s') =
        (if close_fails ex_env 0 \<or> close_fails ex_env 1 then Exit 2 else Exit 0)" for t
    by (rule cmp_identical) (simp_all add: ex_facts ex_rest)
  then show ?thesis
    by (simp add: ex_state_def ex_env_def ex_files_def)
qed


text \<open>
  Claim C5.  In the mode \<open>type_all_diffs\<close>, \<open>cmp\<close> prints one line for each position below
  the length of the shorter input at which the inputs differ, in increasing order of the
  positions, and no line for a position at which they agree: the lines are the images of
  the differing positions, listed in increasing order.  The line for the position \<open>i\<close>
  shows the two bytes, and the character number \<open>i + ignore_initial + 1\<close> as long as this
  is a value of \<^verbatim>\<open>off_t\<close> (in general it shows that number cut to the bits of an
  \<^verbatim>\<open>off_t\<close>).  The run goes on to the end of the shorter input, where the message for an
  input that ended early follows, and returns 1 unless the inputs are the same; so it
  returns 1 whenever a line was printed.
\<close>

theorem cmp_all_differences:
  assumes "comparison_type g = type_all_diffs"
    and "0 < sizeof_word p" and "0 < buf_size g"
    and "length (buffer s 0) = sizeof_word p * words_per_buffer (sizeof_word p) (buf_size g)"
    and "length (buffer s 1) = sizeof_word p * words_per_buffer (sizeof_word p) (buf_size g)"
    and "\<not> read_error (file_desc s 0)" and "\<not> read_error (file_desc s 1)"
    and "xs = rest (file_desc (snd (skip_initial p g s)) 0)"
    and "ys = rest (file_desc (snd (skip_initial p g s)) 1)"
  shows "\<exists>s'. cmp p g s = Some (Return (if xs = ys then 0 else 1), s') \<and>
     printed s' = printed s @
       map (\<lambda>i. diff_line p g (off_t (off_t_bits p) (int i + int (ignore_initial g) + 1))
                  (xs ! i) (ys ! i))
         (filter (\<lambda>i. xs ! i \<noteq> ys ! i) [0..<min (length xs) (length ys)]) @
       (if length xs \<noteq> length ys
        then [EOF_on (file_name g (if length ys < length xs then 1 else 0))] else []) \<and>
     (int (min (length xs) (length ys)) + int (ignore_initial g) < 2 ^ (off_t_bits p - 1) \<longrightarrow>
      printed s' = printed s @
       map (\<lambda>i. diff_line p g (int i + int (ignore_initial g) + 1) (xs ! i) (ys ! i))
         (filter (\<lambda>i. xs ! i \<noteq> ys ! i) [0..<min (length xs) (length ys)]) @
       (if length xs \<noteq> length ys
        then [EOF_on (file_name g (if length ys < length xs then 1 else 0))] else [])) \<and>
     ((\<exists>i<min (length xs) (length ys). xs ! i \<noteq> ys ! i) \<longrightarrow>
        cmp p g s = Some (Return 1, s'))"
proof -
  let ?N = "off_t_bits p" and ?n = "min (length xs) (length ys)"
  let ?P = "\<lambda>i. xs ! i \<noteq> ys ! i"
  let ?eof = "if length xs \<noteq> length ys
        then [EOF_on (file_name g (if length ys < length xs then 1 else 0))] else []"
  have rdy: "ready p g s"
    using assms(2-7) by (rule ready_of_allocated)
  from cmp_result [OF rdy assms(8,9)] assms(1)
  obtain s' where c: "cmp p g s = Some (Return (if xs = ys then 0 else 1), s')"
    and pr: "printed s' = printed s @ all_diffs_events p g (int (ignore_initial g) + 1) xs ys"
    by auto
  have e: "all_diffs_events p g (int (ignore_initial g) + 1) xs ys =
      map (\<lambda>i. diff_line p g (off_t ?N (int i + int (ignore_initial g) + 1)) (xs ! i) (ys ! i))
        (filter ?P [0..<?n]) @ ?eof"
    by (simp add: all_diffs_events_def ac_simps)
  have "map (\<lambda>i. diff_line p g (off_t ?N (int i + int (ignore_initial g) + 1)) (xs ! i) (ys ! i))
        (filter ?P [0..<?n]) =
      map (\<lambda>i. diff_line p g (int i + int (ignore_initial g) + 1) (xs ! i) (ys ! i))
        (filter ?P [0..<?n])"
    if r: "int ?n + int (ignore_initial g) < 2 ^ (?N - 1)"
  proof (rule map_cong [OF refl])
    fix i assume "i \<in> set (filter ?P [0..<?n])"
    then have "i < ?n" by simp
    then have "int i + 1 \<le> int ?n" by linarith
    with r have "int i + int (ignore_initial g) + 1 < 2 ^ (?N - 1)" by linarith
    moreover have "- (2 ^ (?N - 1)) \<le> int i + int (ignore_initial g) + 1"
      by (rule order_trans [of _ 0]) simp_all
    ultimately have "off_t ?N (int i + int (ignore_initial g) + 1) =
        int i + int (ignore_initial g) + 1"
      by (intro off_t_in_range)
    then show "diff_line p g (off_t ?N (int i + int (ignore_initial g) + 1)) (xs ! i) (ys ! i) =
      diff_line p g (int i + int (ignore_initial g) + 1) (xs ! i) (ys ! i)"
      by simp
  qed
  moreover have "xs \<noteq> ys" if "\<exists>i<?n. xs ! i \<noteq> ys ! i"
    using that by auto
  ultimately show ?thesis
    using c pr e by auto
qed

theorem cmp_all_differences_witness:
  "\<exists>s'. cmp ex_platform (ex_globals type_all_diffs) (ex_state ex_file0 ex_file3) =
          Some (Return 1, s') \<and>
        printed s' = [Diff_line 2 97 98, Diff_line 5 99 100, EOF_on ''a'']"
proof -
  let ?g = "ex_globals type_all_diffs" and ?s = "ex_state ex_file0 ex_file3"
  let ?xs = "[97, 10, 98, 99] :: byte list" and ?ys = "[98, 10, 98, 100, 101] :: byte list"
  have xs: "?xs = rest (file_desc (snd (skip_initial ex_platform ?g ?s)) 0)"
    by (simp only: ex_rest ex_inputs)
  have ys: "?ys = rest (file_desc (snd (skip_initial ex_platform ?g ?s)) 1)"
    by (simp only: ex_rest ex_inputs)
  have r: "int (min (length ?xs) (length ?ys)) + int (ignore_initial ?g) <
      2 ^ (off_t_bits ex_platform - 1)"
    by (simp add: ex_globals_def ex_platform_def)
  have f: "filter (\<lambda>i. ?xs ! i \<noteq> ?ys ! i) [0..<min (length ?xs) (length ?ys)] = [0, 3]"
    by (simp add: upt_rec One_nat_def)
  from cmp_all_differences [of ?g ex_platform ?s ?xs ?ys, OF _ _ _ _ _ _ _ xs ys] r
  obtain s' where "cmp ex_platform ?g ?s = Some (Return (if ?xs = ?ys then 0 else 1), s')"
    and "printed s' = printed ?s @
       map (\<lambda>i. diff_line ex_platform ?g (int i + int (ignore_initial ?g) + 1) (?xs ! i) (?ys ! i))
         (filter (\<lambda>i. ?xs ! i \<noteq> ?ys ! i) [0..<min (length ?xs) (length ?ys)]) @
       (if length ?xs \<noteq> length ?ys
        then [EOF_on (file_name ?g (if length ?ys < length ?xs then 1 else 0))] else [])"
    by (auto simp only: ex_facts)
  then show ?thesis
    unfolding f by (simp add: ex_globals_def ex_state_def diff_line_def)
qed


text \<open>
  Claim C6.  When the input of the first file is a strict prefix of the input of the second
  file, \<open>cmp\<close> returns 1; in the modes other than \<open>type_status\<close> it prints the message
  \<open>cmp: EOF on\<close> with the name of the first file, the shorter one, and nothing else, and in
  the mode \<open>type_status\<close> it prints nothing.  With this result the end of \<open>main\<close> exits with
  status 1, unless closing one of the files or checking the standard output fails.
\<close>

theorem cmp_strict_prefix:
  assumes "0 < sizeof_word p" and "0 < buf_size g"
    and "length (buffer s 0) = sizeof_word p * words_per_buffer (sizeof_word p) (buf_size g)"
    and "length (buffer s 1) = sizeof_word p * words_per_buffer (sizeof_word p) (buf_size g)"
    and "\<not> read_error (file_desc s 0)" and "\<not> read_error (file_desc s 1)"
    and "xs = rest (file_desc (snd (skip_initial p g s)) 0)"
    and "xs @ zs = rest (file_desc (snd (skip_initial p g s)) 1)"
    and "zs \<noteq> []"
  shows "\<exists>s'. cmp p g s = Some (Return 1, s') \<and>
     printed s' = printed s @
       (if comparison_type g \<noteq> type_status then [EOF_on (file_name g 0)] else []) \<and>
     fst (finish e g 1 s') =
       (if close_fails e 0 \<or> close_fails e 1
           \<or> (comparison_type g \<noteq> type_status \<and> stdout_fails e)
        then Exit 2 else Exit 1)"
proof -
  have rdy: "ready p g s"
    using assms(1-6) by (rule ready_of_allocated)
  from assms(9) have "xs \<noteq> xs @ zs" by simp
  with cmp_result [OF rdy assms(7,8)] assms(9) show ?thesis
    by (cases "comparison_type g")
       (simp_all add: first_diff_events_prefix all_diffs_events_prefix finish_def)
qed

theorem cmp_strict_prefix_witness:
  "(\<exists>s'. cmp ex_platform (ex_globals type_first_diff) (ex_state ex_file0 ex_file2) =
           Some (Return 1, s') \<and> printed s' = [EOF_on ''a''] \<and>
         fst (finish ex_env (ex_globals type_first_diff) 1 s') = Exit 1) \<and>
   (\<exists>s'. cmp ex_platform (ex_globals type_status) (ex_state ex_file0 ex_file2) =
           Some (Return 1, s') \<and> printed s' = [] \<and>
         fst (finish ex_env (ex_globals type_status) 1 s') = Exit 1)"
proof -
  have "\<exists>s'. cmp ex_platform (ex_globals t) (ex_state ex_file0 ex_file2) = Some (Return 1, s') \<and>
      printed s' = printed (ex_state ex_file0 ex_file2) @
        (if comparison_type (ex_globals t) \<noteq> type_status
         then [EOF_on (file_name (ex_globals t) 0)] else []) \<and>
      fst (finish ex_env (ex_globals t) 1 s') =
        (if close_fails ex_env 0 \<or> close_fails ex_env 1
            \<or> (comparison_type (ex_globals t) \<noteq> type_status \<and> stdout_fails ex_env)
         then Exit 2 else Exit 1)" for t
  proof (rule cmp_strict_prefix [where zs = "[100]"])
    show "[97, 10, 98, 99] = rest (file_desc (snd (skip_initial ex_platform (ex_globals t)
        (ex_state ex_file0 ex_file2))) 0)"
      by (simp only: ex_rest ex_inputs)
    show "[97, 10, 98, 99] @ [100] = rest (file_desc (snd (skip_initial ex_platform (ex_globals t)
        (ex_state ex_file0 ex_file2))) 1)"
      by (simp only: ex_rest ex_inputs) simp
  qed (simp_all add: ex_facts)
  from this [of type_first_diff] this [of type_status] show ?thesis
    by (simp add: ex_state_def ex_globals_def ex_env_def ex_files_def)
qed


section \<open>How \<open>cmp\<close> and \<open>main\<close> can end\<close>


















section \<open>The steps of \<open>main\<close>\<close>

lemma open_operand_Inr:
  "open_operand e g f1 s = Inr (st, s') \<Longrightarrow>
   positioned s' = positioned s \<and> position s' = position s \<and> printed s' = printed s \<and>
   buffer s' = buffer s"
  by (auto simp add: open_operand_def split: option.splits if_splits prod.splits)

lemma open_files_Inr:
  assumes "open_files e g s = Inr (stat_buf, s')"
  shows "positioned s' = positioned s \<and> position s' = position s \<and> printed s' = printed s \<and>
         buffer s' = buffer s"
proof -
  let ?first = "if file_name g 1 = ''-'' then 1 else 0 :: nat"
  from assms obtain st_a s1 where a: "open_operand e g ?first s = Inr (st_a, s1)"
    by (auto simp add: open_files_def Let_def split: sum.splits)
  with assms obtain st_b where b: "open_operand e g (1 - ?first) s1 = Inr (st_b, s')"
    by (auto simp add: open_files_def Let_def split: sum.splits if_splits)
  from open_operand_Inr [OF a] open_operand_Inr [OF b] show ?thesis by simp
qed

lemma file_position_null_device [simp]:
  "file_position p (null_device_check e g) f s = file_position p g f s"
  by (simp add: file_position_def null_device_check_def split: option.splits)

lemma both_positions_null_device [simp]:
  "both_positions p (null_device_check e g) s = both_positions p g s"
  by (simp add: both_positions_def)

lemma lseek_cur_reads [simp]: "reads (fst (lseek_cur N f n)) = reads f"
  by (simp add: lseek_cur_def)

lemma both_positions_fresh:
  assumes "\<not> positioned s 0" and "\<not> positioned s 1"
  shows "\<exists>s1. both_positions p g s =
           (snd (lseek_cur (off_t_bits p) (file_desc s 0) (ignore_initial g)),
            snd (lseek_cur (off_t_bits p) (file_desc s 1) (ignore_initial g)), s1) \<and>
         positioned s1 0 \<and> positioned s1 1 \<and>
         position s1 0 = snd (lseek_cur (off_t_bits p) (file_desc s 0) (ignore_initial g)) \<and>
         position s1 1 = snd (lseek_cur (off_t_bits p) (file_desc s 1) (ignore_initial g)) \<and>
         reads (file_desc s1 0) = reads (file_desc s 0) \<and>
         reads (file_desc s1 1) = reads (file_desc s 1) \<and>
         printed s1 = printed s"
proof -
  obtain fl0 q0 where l0: "lseek_cur (off_t_bits p) (file_desc s 0) (ignore_initial g) = (fl0, q0)"
    by (cases "lseek_cur (off_t_bits p) (file_desc s 0) (ignore_initial g)")
  obtain fl1 q1 where l1: "lseek_cur (off_t_bits p) (file_desc s 1) (ignore_initial g) = (fl1, q1)"
    by (cases "lseek_cur (off_t_bits p) (file_desc s 1) (ignore_initial g)")
  have r0: "reads fl0 = reads (file_desc s 0)"
    using lseek_cur_reads [of "off_t_bits p" "file_desc s 0" "ignore_initial g"] l0 by simp
  have r1: "reads fl1 = reads (file_desc s 1)"
    using lseek_cur_reads [of "off_t_bits p" "file_desc s 1" "ignore_initial g"] l1 by simp
  have ne: "(0::nat) \<noteq> 1" by simp
  from assms l0 l1 r0 r1 ne show ?thesis
    by (simp add: both_positions_def file_position_def)
qed

lemma both_positions_cached:
  assumes "positioned s 0" and "positioned s 1"
  shows "both_positions p g s = (position s 0, position s 1, s)"
  using assms by (simp add: both_positions_def file_position_def)

lemma same_file_shortcut_eq:
  "same_file_shortcut p e g stat_buf s =
     (if 0 < same_file e (stat_buf 0) (stat_buf 1)
         \<and> same_file_attributes e (stat_buf 0) (stat_buf 1)
      then (case both_positions p g s of (q0, q1, s1) \<Rightarrow> (q0 = q1, s1))
      else (False, s))"
  by (simp add: same_file_shortcut_def both_positions_def split: prod.splits)

lemma size_shortcut_eq:
  "size_shortcut p g stat_buf s =
     (if comparison_type g = type_status \<and> st_isreg (stat_buf 0) \<and> st_isreg (stat_buf 1)
      then (case both_positions p g s of
              (q0, q1, s1) \<Rightarrow>
                (max 0 (off_t (off_t_bits p) (st_size (stat_buf 0) - q0)) \<noteq>
                 max 0 (off_t (off_t_bits p) (st_size (stat_buf 1) - q1)), s1))
      else (False, s))"
  by (simp add: size_shortcut_def both_positions_def split: prod.splits)

text \<open>
  The comparison of the sizes, from the state in which the files have just been opened:
  the positions are those that \<^verbatim>\<open>lseek\<close> reports for the two files.
\<close>

lemma compare_files_sizes:
  assumes fresh: "\<not> positioned s 0" "\<not> positioned s 1"
    and nsame: "\<not> fst (same_file_shortcut p e g stat_buf s)"
    and mode: "comparison_type (null_device_check e g) = type_status"
    and reg: "st_isreg (stat_buf 0)" "st_isreg (stat_buf 1)"
    and ne: "max 0 (off_t (off_t_bits p) (st_size (stat_buf 0) -
                 snd (lseek_cur (off_t_bits p) (file_desc s 0) (ignore_initial g)))) \<noteq>
             max 0 (off_t (off_t_bits p) (st_size (stat_buf 1) -
                 snd (lseek_cur (off_t_bits p) (file_desc s 1) (ignore_initial g))))"
  shows "\<exists>s'. compare_files p e g stat_buf s = Some (Exit 1, s') \<and>
           reads (file_desc s' 0) = reads (file_desc s 0) \<and>
           reads (file_desc s' 1) = reads (file_desc s 1) \<and>
           printed s' = printed s"
proof -
  let ?q0 = "snd (lseek_cur (off_t_bits p) (file_desc s 0) (ignore_initial g))"
  let ?q1 = "snd (lseek_cur (off_t_bits p) (file_desc s 1) (ignore_initial g))"
  let ?g = "null_device_check e g"
  from both_positions_fresh [OF fresh, of p g] obtain s1 where
    bp: "both_positions p g s = (?q0, ?q1, s1)"
    and s1: "positioned s1 0" "positioned s1 1" "position s1 0 = ?q0" "position s1 1 = ?q1"
      "reads (file_desc s1 0) = reads (file_desc s 0)"
      "reads (file_desc s1 1) = reads (file_desc s 1)" "printed s1 = printed s"
    by blast
  show ?thesis
  proof (cases "0 < same_file e (stat_buf 0) (stat_buf 1)
                  \<and> same_file_attributes e (stat_buf 0) (stat_buf 1)")
    case True
    then have sf: "same_file_shortcut p e g stat_buf s = (?q0 = ?q1, s1)"
      by (simp add: same_file_shortcut_eq bp)
    with nsame have sf': "same_file_shortcut p e g stat_buf s = (False, s1)" by simp
    have "both_positions p g s1 = (?q0, ?q1, s1)"
      using both_positions_cached [OF s1(1,2), of p g] s1(3,4) by simp
    with mode reg ne have "size_shortcut p ?g stat_buf s1 = (True, s1)"
      by (simp add: size_shortcut_eq)
    with sf' have "compare_files p e g stat_buf s = Some (Exit 1, s1)"
      by (simp add: compare_files_def)
    with s1 show ?thesis by simp
  next
    case False
    have sf: "same_file_shortcut p e g stat_buf s = (False, s)"
      by (subst same_file_shortcut_eq) (simp only: False if_False)
    from mode reg ne bp have "size_shortcut p ?g stat_buf s = (True, s1)"
      by (simp add: size_shortcut_eq)
    with sf have "compare_files p e g stat_buf s = Some (Exit 1, s1)"
      by (simp add: compare_files_def)
    with s1 show ?thesis by simp
  qed
qed

lemma main_sizes:
  assumes po: "parse_options p e opts initial_globals = Inr g0"
    and ops: "operands args last_arg = Inr (a, b)"
    and g: "g = g0\<lparr>file_name := (\<lambda>f. if f = 0 then a else b)\<rparr>"
    and opened: "open_files e g (initial_state e) = Inr (stat_buf, s)"
    and nsame: "\<not> fst (same_file_shortcut p e g stat_buf s)"
    and mode: "comparison_type (null_device_check e g) = type_status"
    and reg: "st_isreg (stat_buf 0)" "st_isreg (stat_buf 1)"
    and ne: "max 0 (off_t (off_t_bits p) (st_size (stat_buf 0) -
                 snd (lseek_cur (off_t_bits p) (file_desc s 0) (ignore_initial g)))) \<noteq>
             max 0 (off_t (off_t_bits p) (st_size (stat_buf 1) -
                 snd (lseek_cur (off_t_bits p) (file_desc s 1) (ignore_initial g))))"
  shows "\<exists>s'. main p e opts args last_arg = Some (Exit 1, s') \<and>
           reads (file_desc s' 0) = reads (file_desc s 0) \<and>
           reads (file_desc s' 1) = reads (file_desc s 1) \<and>
           printed s' = []"
proof -
  from open_files_Inr [OF opened]
  have fresh: "\<not> positioned s 0" "\<not> positioned s 1" and pr: "printed s = []"
    by (simp_all add: initial_state_def)
  from po ops opened have "main p e opts args last_arg = compare_files p e g stat_buf s"
    by (simp add: main_def g)
  with compare_files_sizes [OF fresh nsame mode reg ne] pr show ?thesis by simp
qed

section \<open>The example files\<close>

lemma ex_off_t [simp]: "off_t 64 1 = 1" "off_t 64 4 = 4" "off_t 64 5 = 5" "off_t 64 6 = 6"
  by (simp_all add: off_t_in_range)

lemma ex_open:
  "open_files ex_env (g\<lparr>file_name := (\<lambda>f. if f = 0 then ''a'' else ''b'')\<rparr>)
     (initial_state ex_env) =
   Inr (\<lambda>f. if f = 0 then \<lparr>st_size = 5, st_isreg = True, st_other = 1\<rparr>
             else \<lparr>st_size = 6, st_isreg = True, st_other = 2\<rparr>,
        (initial_state ex_env)\<lparr>file_desc :=
           (\<lambda>f. if f = 0 then ex_stream ex_file0
                 else if f = 1 then ex_stream ex_file2 else fst (stdin ex_env))\<rparr>)"
  by (simp add: open_files_def open_operand_def ex_env_def ex_files_def ex_file2_def file_name_cmp_def initial_state_def
        fun_eq_iff)

lemma ex_open_operand_null:
  "open_operand ex_env_null g f1 s = open_operand ex_env g f1 s"
  by (simp add: open_operand_def ex_env_null_def)

lemma ex_open_null:
  "open_files ex_env_null g s = open_files ex_env g s"
  unfolding open_files_def ex_open_operand_null by (rule refl)

section \<open>The option loop\<close>

text \<open>One option that does not end the process changes the variables and the loop goes on.\<close>

lemma parse_options_Cons:
  assumes "parse_options p e (x # opts) g0 = Inr g"
  shows "\<exists>g'. (\<forall>opts'. parse_options p e (x # opts') g0 = parse_options p e opts' g') \<and>
           comparison_type g' =
             (if \<exists>arg. x = Opt CHR ''l'' arg then type_all_diffs
              else if \<exists>arg. x = Opt CHR ''s'' arg then type_status
              else comparison_type g0)"
proof (cases x)
  case Opt_help
  with assms show ?thesis by simp
next
  case (Opt c optarg)
  consider "c = CHR ''b'' \<or> c = CHR ''c''" | "c = CHR ''i''" | "c = CHR ''l''" | "c = CHR ''s''"
    | "c \<noteq> CHR ''b''" "c \<noteq> CHR ''c''" "c \<noteq> CHR ''i''" "c \<noteq> CHR ''l''" "c \<noteq> CHR ''s''"
    by blast
  then show ?thesis
  proof cases
    case 1
    with Opt show ?thesis
      by (intro exI [of _ "g0\<lparr>opt_print_bytes := True\<rparr>"]) auto
  next
    case 2
    obtain val numend err where st: "strtoumax e optarg = (val, numend, err)"
      by (cases "strtoumax e optarg")
    let ?bad = "off_t (off_t_bits p) (int val) < 0 \<or> off_t (off_t_bits p) (int val) \<noteq> int val
                   \<or> err \<or> numend \<noteq> []"
    have "\<not> ?bad"
    proof
      assume ?bad
      with assms Opt 2 st show False by simp
    qed
    with Opt 2 st show ?thesis
      by (intro exI [of _ "g0\<lparr>ignore_initial := nat (off_t (off_t_bits p) (int val))\<rparr>"]) simp
  next
    case 3
    with Opt show ?thesis
      by (intro exI [of _ "g0\<lparr>comparison_type := type_all_diffs\<rparr>"]) simp
  next
    case 4
    with Opt show ?thesis
      by (intro exI [of _ "g0\<lparr>comparison_type := type_status\<rparr>"]) simp
  next
    case 5
    with assms Opt show ?thesis by (simp split: if_splits)
  qed
qed

lemma parse_options_append:
  "parse_options p e (opts1 @ opts2) g0 = Inr g \<Longrightarrow>
   \<exists>g1. parse_options p e opts1 g0 = Inr g1 \<and> parse_options p e opts2 g1 = Inr g"
proof (induction opts1 arbitrary: g0)
  case Nil
  then show ?case by simp
next
  case (Cons x opts1)
  from Cons.prems have "parse_options p e (x # (opts1 @ opts2)) g0 = Inr g" by simp
  from parse_options_Cons [OF this] obtain g' where
    g': "\<forall>opts'. parse_options p e (x # opts') g0 = parse_options p e opts' g'"
    by blast
  with Cons.prems have "parse_options p e (opts1 @ opts2) g' = Inr g" by simp
  from Cons.IH [OF this] g' show ?case by simp
qed

lemma parse_options_keeps_type:
  "parse_options p e opts g1 = Inr g \<Longrightarrow>
   \<forall>x\<in>set opts. \<forall>arg. x \<noteq> Opt CHR ''l'' arg \<and> x \<noteq> Opt CHR ''s'' arg \<Longrightarrow>
   comparison_type g = comparison_type g1"
proof (induction opts arbitrary: g1)
  case Nil
  then show ?case by simp
next
  case (Cons x opts)
  from parse_options_Cons [OF Cons.prems(1)] obtain g' where
    g': "\<forall>opts'. parse_options p e (x # opts') g1 = parse_options p e opts' g'"
    and t: "comparison_type g' =
             (if \<exists>arg. x = Opt CHR ''l'' arg then type_all_diffs
              else if \<exists>arg. x = Opt CHR ''s'' arg then type_status
              else comparison_type g1)"
    by blast
  from Cons.prems(2) have x: "\<not> (\<exists>arg. x = Opt CHR ''l'' arg)" "\<not> (\<exists>arg. x = Opt CHR ''s'' arg)"
    and rest: "\<forall>x\<in>set opts. \<forall>arg. x \<noteq> Opt CHR ''l'' arg \<and> x \<noteq> Opt CHR ''s'' arg"
    by auto
  from g' Cons.prems(1) have "parse_options p e opts g' = Inr g" by simp
  from Cons.IH [OF this rest] t x show ?case by simp
qed

lemma null_device_check_type:
  "comparison_type (null_device_check e g) =
     (if comparison_type g = type_status \<or>
         (\<exists>outstat nullstat. stdout_stat e = Some outstat \<and> null_stat e = Some nullstat \<and>
            0 < same_file e outstat nullstat)
      then type_status else comparison_type g)"
  by (auto simp add: null_device_check_def split: option.splits)

section \<open>No access outside the buffers\<close>














section \<open>Two runs of \<open>main\<close> on the example files\<close>






section \<open>The claims about \<open>main\<close>\<close>

text \<open>
  In the theorems about \<open>main\<close>, \<open>opts\<close> are the options as \<^verbatim>\<open>getopt_long\<close> delivers them,
  \<open>g0\<close> holds the variables after the option loop, \<open>a\<close> and \<open>b\<close> are the two operands, and
  \<open>s\<close> is the state in which both files have just been opened.
\<close>

text \<open>
  Claim C8.  When the mode is \<open>type_status\<close>, by the options or because the standard output
  is the null device, both files are regular files, and the test of the same file has not
  ended the run, \<open>main\<close> compares for each file the size minus the offset that
  \<open>file_position\<close> reports, which is the offset of the file plus \<open>ignore_initial\<close> (or \<open>-1\<close>
  when \<^verbatim>\<open>lseek\<close> fails), each difference an \<^verbatim>\<open>off_t\<close> and replaced by 0 when it is negative.
  When the two values differ, the process exits with status 1, no read request has been made
  on either file, and nothing has been written.
\<close>

theorem status_size_shortcut:
  assumes "parse_options p e opts initial_globals = Inr g0"
    and "operands args last_arg = Inr (a, b)"
    and "g = g0\<lparr>file_name := (\<lambda>f. if f = 0 then a else b)\<rparr>"
    and "open_files e g (initial_state e) = Inr (stat_buf, s)"
    and "\<not> fst (same_file_shortcut p e g stat_buf s)"
    and "comparison_type (null_device_check e g) = type_status"
    and "st_isreg (stat_buf 0)" and "st_isreg (stat_buf 1)"
    and "max 0 (off_t (off_t_bits p) (st_size (stat_buf 0) -
                 snd (lseek_cur (off_t_bits p) (file_desc s 0) (ignore_initial g)))) \<noteq>
         max 0 (off_t (off_t_bits p) (st_size (stat_buf 1) -
                 snd (lseek_cur (off_t_bits p) (file_desc s 1) (ignore_initial g))))"
  shows "\<exists>s'. main p e opts args last_arg = Some (Exit 1, s') \<and>
           reads (file_desc s' 0) = reads (file_desc s 0) \<and>
           reads (file_desc s' 1) = reads (file_desc s 1) \<and>
           printed s' = []"
  using assms by (rule main_sizes)

theorem status_size_shortcut_witness:
  "\<exists>s'. main ex_platform ex_env [Opt CHR ''i'' ''1'', Opt CHR ''s'' []] [''a'', ''b''] ''b'' =
          Some (Exit 1, s') \<and>
        reads (file_desc s' 0) = 0 \<and> reads (file_desc s' 1) = 0 \<and> printed s' = []"
proof -
  let ?gp = "\<lparr>file_name = (\<lambda>f. []), buf_size = 0, ignore_initial = 1,
              comparison_type = type_status, opt_print_bytes = False\<rparr>"
  let ?s = "(initial_state ex_env)\<lparr>file_desc :=
           (\<lambda>f. if f = 0 then ex_stream ex_file0
                 else if f = 1 then ex_stream ex_file2 else fst (stdin ex_env))\<rparr>"
  have po: "parse_options ex_platform ex_env [Opt CHR ''i'' ''1'', Opt CHR ''s'' []]
      initial_globals = Inr ?gp"
    by (simp add: ex_env_def ex_files_def ex_file2_def ex_platform_def initial_globals_def)
  have ops: "operands [''a'', ''b''] ''b'' = Inr (''a'', ''b'')"
    by (simp add: operands_def)
  have "\<exists>s'. main ex_platform ex_env [Opt CHR ''i'' ''1'', Opt CHR ''s'' []] [''a'', ''b''] ''b'' =
          Some (Exit 1, s') \<and>
        reads (file_desc s' 0) = reads (file_desc ?s 0) \<and>
        reads (file_desc s' 1) = reads (file_desc ?s 1) \<and> printed s' = []"
    by (rule status_size_shortcut [OF po ops refl ex_open])
       (simp_all add: same_file_shortcut_def null_device_check_def ex_env_def ex_files_def ex_file2_def ex_platform_def
          lseek_cur_def ex_stream_def)
  then show ?thesis
    by (simp add: ex_stream_def)
qed



text \<open>
  Claim C10, as stated, fails when the standard output is the null device: with the
  options \<^verbatim>\<open>-s -l\<close> the option loop leaves the mode \<open>type_all_diffs\<close>, but \<open>main\<close> then
  changes it to \<open>type_status\<close>, and the run for two regular files of 5 and of 6 bytes ends
  with status 1 on the comparison of the sizes, without a read request and without writing
  anything.
\<close>

theorem null_device_overrides_last_flag:
  "parse_options ex_platform ex_env_null [Opt CHR ''s'' [], Opt CHR ''l'' []] initial_globals =
     Inr (initial_globals\<lparr>comparison_type := type_all_diffs\<rparr>) \<and>
   comparison_type
     (null_device_check ex_env_null (initial_globals\<lparr>comparison_type := type_all_diffs\<rparr>)) =
     type_status \<and>
   (\<exists>s'. main ex_platform ex_env_null [Opt CHR ''s'' [], Opt CHR ''l'' []] [''a'', ''b''] ''b'' =
           Some (Exit 1, s') \<and>
         reads (file_desc s' 0) = 0 \<and> reads (file_desc s' 1) = 0 \<and> printed s' = [])"
proof (intro conjI)
  let ?gp = "initial_globals\<lparr>comparison_type := type_all_diffs\<rparr>"
  let ?s = "(initial_state ex_env)\<lparr>file_desc :=
           (\<lambda>f. if f = 0 then ex_stream ex_file0
                 else if f = 1 then ex_stream ex_file2 else fst (stdin ex_env))\<rparr>"
  show po: "parse_options ex_platform ex_env_null [Opt CHR ''s'' [], Opt CHR ''l'' []]
      initial_globals = Inr ?gp"
    by simp
  show "comparison_type (null_device_check ex_env_null ?gp) = type_status"
    by (simp add: null_device_check_def ex_env_null_def ex_env_def ex_files_def ex_file2_def)
  have ops: "operands [''a'', ''b''] ''b'' = Inr (''a'', ''b'')"
    by (simp add: operands_def)
  have st: "initial_state ex_env_null = initial_state ex_env"
    by (simp add: initial_state_def ex_env_null_def)
  have opened: "open_files ex_env_null (?gp\<lparr>file_name := (\<lambda>f. if f = 0 then ''a'' else ''b'')\<rparr>)
      (initial_state ex_env_null) =
      Inr (\<lambda>f. if f = 0 then \<lparr>st_size = 5, st_isreg = True, st_other = 1\<rparr>
                else \<lparr>st_size = 6, st_isreg = True, st_other = 2\<rparr>, ?s)"
    unfolding st ex_open_null by (rule ex_open)
  have "\<exists>s'. main ex_platform ex_env_null [Opt CHR ''s'' [], Opt CHR ''l'' []] [''a'', ''b''] ''b'' =
          Some (Exit 1, s') \<and>
        reads (file_desc s' 0) = reads (file_desc ?s 0) \<and>
        reads (file_desc s' 1) = reads (file_desc ?s 1) \<and> printed s' = []"
    by (rule main_sizes [OF po ops refl opened])
       (simp_all add: same_file_shortcut_def null_device_check_def ex_env_null_def ex_env_def ex_files_def ex_file2_def
          ex_platform_def lseek_cur_def ex_stream_def initial_globals_def)
  then show "\<exists>s'. main ex_platform ex_env_null [Opt CHR ''s'' [], Opt CHR ''l'' []]
        [''a'', ''b''] ''b'' = Some (Exit 1, s') \<and>
      reads (file_desc s' 0) = 0 \<and> reads (file_desc s' 1) = 0 \<and> printed s' = []"
    by (simp add: ex_stream_def)
qed

text \<open>
  Claim C10, amended.  When the option loop ends without ending the process, the mode that
  it leaves is that of the last of the flags \<^verbatim>\<open>-l\<close> and \<^verbatim>\<open>-s\<close>: each occurrence overwrites
  the mode.  The comparison runs in this mode, unless the standard output is the null
  device: then it runs in the mode \<open>type_status\<close>.  So \<^verbatim>\<open>-l -s\<close> runs in the mode
  \<open>type_status\<close>, and \<^verbatim>\<open>-s -l\<close> runs in the mode \<open>type_all_diffs\<close> when the standard output is
  not the null device.
\<close>

theorem last_mode_flag_wins:
  assumes "parse_options p e (opts1 @ Opt c optarg # opts2) g0 = Inr g"
    and "c = CHR ''l'' \<or> c = CHR ''s''"
    and "\<forall>x\<in>set opts2. \<forall>arg. x \<noteq> Opt CHR ''l'' arg \<and> x \<noteq> Opt CHR ''s'' arg"
  shows "comparison_type g = (if c = CHR ''l'' then type_all_diffs else type_status) \<and>
         comparison_type (null_device_check e g) =
           (if c = CHR ''s'' \<or>
               (\<exists>outstat nullstat. stdout_stat e = Some outstat \<and> null_stat e = Some nullstat \<and>
                  0 < same_file e outstat nullstat)
            then type_status else type_all_diffs)"
proof -
  from parse_options_append [OF assms(1)] obtain g1 where
    g1: "parse_options p e opts1 g0 = Inr g1"
    and g: "parse_options p e (Opt c optarg # opts2) g1 = Inr g"
    by blast
  let ?t = "if c = CHR ''l'' then type_all_diffs else type_status"
  from parse_options_Cons [OF g] obtain g' where
    g': "\<forall>opts'. parse_options p e (Opt c optarg # opts') g1 = parse_options p e opts' g'"
    and t': "comparison_type g' =
             (if \<exists>arg. Opt c optarg = Opt CHR ''l'' arg then type_all_diffs
              else if \<exists>arg. Opt c optarg = Opt CHR ''s'' arg then type_status
              else comparison_type g1)"
    by blast
  from g g' have "parse_options p e opts2 g' = Inr g" by simp
  from parse_options_keeps_type [OF this assms(3)] t' assms(2)
  have t: "comparison_type g = ?t" by auto
  with assms(2) show ?thesis
    by (auto simp add: null_device_check_type)
qed

theorem last_mode_flag_wins_witness:
  "(\<exists>g. parse_options ex_platform ex_env [Opt CHR ''l'' [], Opt CHR ''b'' [], Opt CHR ''s'' []]
           initial_globals = Inr g \<and>
         comparison_type g = type_status \<and>
         comparison_type (null_device_check ex_env g) = type_status) \<and>
   (\<exists>g. parse_options ex_platform ex_env [Opt CHR ''s'' [], Opt CHR ''l'' [], Opt CHR ''b'' []]
           initial_globals = Inr g \<and>
         comparison_type g = type_all_diffs \<and>
         comparison_type (null_device_check ex_env g) = type_all_diffs)"
proof -
  let ?g1 = "\<lparr>file_name = (\<lambda>f. []), buf_size = 0, ignore_initial = 0,
              comparison_type = type_status, opt_print_bytes = True\<rparr>"
  let ?g2 = "\<lparr>file_name = (\<lambda>f. []), buf_size = 0, ignore_initial = 0,
              comparison_type = type_all_diffs, opt_print_bytes = True\<rparr>"
  have po1: "parse_options ex_platform ex_env
      ([Opt CHR ''l'' [], Opt CHR ''b'' []] @ Opt CHR ''s'' [] # []) initial_globals = Inr ?g1"
    by (simp add: initial_globals_def)
  have po2: "parse_options ex_platform ex_env
      ([Opt CHR ''s'' []] @ Opt CHR ''l'' [] # [Opt CHR ''b'' []]) initial_globals = Inr ?g2"
    by (simp add: initial_globals_def)
  from last_mode_flag_wins [OF po1]
  have "comparison_type ?g1 = type_status \<and>
        comparison_type (null_device_check ex_env ?g1) = type_status"
    by simp
  moreover from last_mode_flag_wins [OF po2]
  have "comparison_type ?g2 = type_all_diffs \<and>
        comparison_type (null_device_check ex_env ?g2) = type_all_diffs"
    by (simp add: ex_env_def ex_files_def ex_file2_def)
  ultimately show ?thesis
    using po1 po2 by (intro conjI exI [of _ ?g1] exI [of _ ?g2]) simp_all
qed

end
